theory Spec2Isabelle
  imports Main "HOL-Library.AList"
begin

section \<open>Layered configuration resolution (tfimm/train/config.py)\<close>

text \<open>
  The module resolves a training configuration from three layers: defaults of typed
  configuration classes, a YAML file and command-line tokens. This theory embeds its
  functions as HOL functions and proves properties of them.

  Conventions of the embedding:
  \<^item> a Python \<open>dict\<close> is an association list in insertion order; \<open>d[k] = v\<close> is
    \<open>AList.update\<close>, which replaces the value of a key that is present (keeping its
    position) and appends a new key at the end, as Python does. A list that represents a
    dict has pairwise distinct keys; the functions below are written without relying on
    that, and the theorems that need it say so (\<open>wf_dict\<close>);
  \<^item> an exception is a value of type \<open>error\<close>, and a function that can raise returns
    \<open>error + 'a\<close>;
  \<^item> the class registry, the YAML loader, the literal evaluator \<open>ast.literal_eval\<close> and
    \<open>ArgumentParser.parse_known_args\<close> belong to other modules and libraries: they are
    parameters of the functions that call them.
\<close>

subsection \<open>Values, types and errors\<close>

text \<open>
  Terminal values: \<open>None\<close>, the sentinel \<open>dataclasses.MISSING\<close>, booleans, integers,
  strings, tuples and lists. Floating-point numbers are not part of the model.
  \<open>VMissingCopy\<close> is an instance of the class of the sentinel that is not the sentinel
  itself: \<open>copy.deepcopy(MISSING)\<close> builds a new object, for which \<open>is MISSING\<close> and
  membership in \<open>{None, MISSING}\<close> are both false. The model does not tell two such
  copies apart; the module never compares them.
\<close>

datatype val =
    VNone
  | VMissing
  | VMissingCopy
  | VBool bool
  | VInt int
  | VStr string
  | VTuple "val list"
  | VList "val list"

text \<open>
  The Python types of these values, as \<open>type(val)\<close> returns them; \<open>TMissingType\<close> is
  the class of the sentinel, \<open>dataclasses._MISSING_TYPE\<close>.
\<close>

datatype pytype = TBool | TInt | TStr | TTuple | TList | TMissingType

text \<open>
  Exceptions. The first five are the error kinds of the design; in Python,
  \<open>InvalidOverride\<close>, \<open>UnresolvedArgument\<close> and \<open>StalledResolution\<close> are the three
  \<open>ValueError\<close>s that \<open>add_default_args\<close> and \<open>parse_args\<close> raise themselves,
  \<open>InvalidArgument\<close> is \<open>argparse.ArgumentTypeError\<close>, and \<open>UnknownSchema\<close> is the
  failure of the registry lookup. \<open>ValueError\<close> stands for every other \<open>ValueError\<close>,
  and \<open>ParserExit\<close> for \<open>SystemExit\<close> raised by the argument parser.
\<close>

datatype error =
    UnknownSchema
  | InvalidOverride
  | InvalidArgument
  | UnresolvedArgument string
  | StalledResolution
  | RecursionError
  | TypeError
  | ValueError
  | KeyError string
  | AttributeError
  | SyntaxError
  | FileError
  | ArgumentError
  | ParserExit

subsection \<open>Configurations\<close>

text \<open>
  A configuration in dictionary format is a nested dict whose values are terminals or
  dicts. The type parameter is the type of the terminals: \<open>val\<close> in dictionary format,
  \<open>pytype \<times> val\<close> in argument format, where every terminal is a tuple \<open>(type, value)\<close>.
\<close>

datatype 'a cfg = Term 'a | Dict "(string \<times> 'a cfg) list"

type_synonym 'a dict = "(string \<times> 'a cfg) list"

text \<open>A flat configuration: dotted keys, terminal values.\<close>

type_synonym 'a flat = "(string \<times> 'a) list"

text \<open>
  A configuration in class format: values are terminals, dicts, or instances of
  configuration dataclasses (class name and fields).
\<close>

datatype tcfg =
    TVal val
  | TDict "(string \<times> tcfg) list"
  | TInst string "(string \<times> tcfg) list"

text \<open>
  Modelled from the spec: the registry module (\<open>get_cfg_class\<close>) and the configuration
  dataclasses are not among the sources. A schema is the ordered list of the fields of a
  dataclass, each with its name, its declared type and its default (\<open>VMissing\<close> when it
  has none), as \<open>dataclasses.fields\<close> reports them; the registry maps a class name to
  its schema.
\<close>

type_synonym schema = "(string \<times> pytype \<times> val) list"

type_synonym registry = "string \<Rightarrow> schema option"

subsection \<open>Dict primitives\<close>

abbreviation setitem :: "'k \<Rightarrow> 'v \<Rightarrow> ('k \<times> 'v) list \<Rightarrow> ('k \<times> 'v) list" where
  "setitem \<equiv> AList.update"

definition contains :: "('k \<times> 'v) list \<Rightarrow> 'k \<Rightarrow> bool" where
  "contains d k = (map_of d k \<noteq> None)"

text \<open>\<open>d.update(other)\<close>: the entries of \<open>other\<close> are stored into \<open>d\<close> in order.\<close>

definition dict_update :: "('k \<times> 'v) list \<Rightarrow> ('k \<times> 'v) list \<Rightarrow> ('k \<times> 'v) list" where
  "dict_update d other = fold (\<lambda>(k, v). setitem k v) other d"

text \<open>A \<open>for\<close> loop over a list that updates an accumulator and stops at the first exception.\<close>

fun foldM :: "('a \<Rightarrow> 'b \<Rightarrow> error + 'b) \<Rightarrow> 'a list \<Rightarrow> 'b \<Rightarrow> error + 'b" where
  "foldM f [] acc = Inr acc"
| "foldM f (x # xs) acc = (case f x acc of Inl e \<Rightarrow> Inl e | Inr acc' \<Rightarrow> foldM f xs acc')"

lemma foldM_cong [fundef_cong]:
  "xs = ys \<Longrightarrow> a = b \<Longrightarrow> (\<And>x acc. x \<in> set ys \<Longrightarrow> f x acc = g x acc)
    \<Longrightarrow> foldM f xs a = foldM g ys b"
  by (induction ys arbitrary: xs a b) (auto split: sum.splits)

subsection \<open>Representation converters\<close>

text \<open>
  \<open>copy.deepcopy\<close> on a terminal value, as \<open>dataclasses.asdict\<close> applies it: lists and
  tuples are rebuilt from the copies of their elements, numbers, strings, booleans and
  \<open>None\<close> are returned as they are, and the copy of the sentinel \<open>MISSING\<close> is a new
  object of its class.
\<close>

fun deepcopy :: "val \<Rightarrow> val" where
  "deepcopy VMissing = VMissingCopy"
| "deepcopy (VTuple xs) = VTuple (map deepcopy xs)"
| "deepcopy (VList xs) = VList (map deepcopy xs)"
| "deepcopy v = v"

text \<open>
  \<open>dataclasses.asdict\<close>: the fields of an instance as a dict, nested instances and dicts
  converted recursively, every other value deep-copied.
\<close>

fun asdict :: "(string \<times> tcfg) list \<Rightarrow> val dict" where
  "asdict fs =
     fold (\<lambda>(name, v) res.
        case v of
          TInst c fs' \<Rightarrow> setitem name (Dict (asdict fs')) res
        | TDict d \<Rightarrow> setitem name (Dict (asdict d)) res
        | TVal x \<Rightarrow> setitem name (Term (deepcopy x)) res) fs []"

fun to_dict_format :: "(string \<times> tcfg) list \<Rightarrow> val dict" where
  "to_dict_format cfg =
     fold (\<lambda>(key, v) res_cfg.
        case v of
          TDict d \<Rightarrow> setitem key (Dict (to_dict_format d)) res_cfg
        | TInst c fs \<Rightarrow> setitem key (Dict (asdict fs)) res_cfg
        | TVal x \<Rightarrow> setitem key (Term x) res_cfg) cfg []"

text \<open>
  Modelled from the spec: \<open>get_cfg_class\<close> of the registry module. A selector value that
  is not the name of a registered class is an \<open>UnknownSchema\<close> failure.
\<close>

definition get_cfg_class :: "registry \<Rightarrow> val \<Rightarrow> error + (string \<times> schema)" where
  "get_cfg_class reg v =
     (case v of
        VStr name \<Rightarrow> (case reg name of None \<Rightarrow> Inl UnknownSchema | Some s \<Rightarrow> Inr (name, s))
      | _ \<Rightarrow> Inl UnknownSchema)"

text \<open>
  Modelled from the spec: the call \<open>cls(**val)\<close> of a configuration dataclass. An
  unexpected keyword and a missing value for a field without default are \<open>TypeError\<close>s;
  the instance holds the fields in the order of the schema.
\<close>

definition construct :: "string \<times> schema \<Rightarrow> (string \<times> tcfg) list \<Rightarrow> error + tcfg" where
  "construct cls kwargs =
     (if list_ex (\<lambda>k. k \<notin> set (map fst (snd cls))) (map fst kwargs) then Inl TypeError
      else
        case foldM (\<lambda>(name, tp, dflt) fs.
               case map_of kwargs name of
                 Some v \<Rightarrow> Inr (fs @ [(name, v)])
               | None \<Rightarrow> if dflt = VMissing then Inl TypeError
                         else Inr (fs @ [(name, TVal dflt)])) (snd cls) [] of
          Inl e \<Rightarrow> Inl e
        | Inr fs \<Rightarrow> Inr (TInst (fst cls) fs))"

fun to_cls_format :: "registry \<Rightarrow> val dict \<Rightarrow> error + (string \<times> tcfg) list" where
  "to_cls_format reg cfg =
     foldM (\<lambda>(key, v) res_cfg.
        case v of
          Dict d \<Rightarrow>
            (case to_cls_format reg d of
               Inl e \<Rightarrow> Inl e
             | Inr d' \<Rightarrow>
                 (case map_of cfg (key @ ''_class'') of
                    None \<Rightarrow> Inl (KeyError (key @ ''_class''))
                  | Some (Dict _) \<Rightarrow> Inl UnknownSchema
                  | Some (Term sel) \<Rightarrow>
                      (case get_cfg_class reg sel of
                         Inl e \<Rightarrow> Inl e
                       | Inr cls \<Rightarrow>
                           (case construct cls d' of
                              Inl e \<Rightarrow> Inl e
                            | Inr inst \<Rightarrow> Inr (setitem key inst res_cfg)))))
        | Term x \<Rightarrow> Inr (setitem key (TVal x) res_cfg)) cfg []"

text \<open>
  \<open>val not in {None, MISSING}\<close> hashes \<open>val\<close>: a list, or a tuple that contains one, is
  a \<open>TypeError\<close>.
\<close>

fun hashable :: "val \<Rightarrow> bool" where
  "hashable (VList xs) = False"
| "hashable (VTuple xs) = list_all hashable xs"
| "hashable v = True"

text \<open>
  The type given to a terminal: \<open>type(val)\<close>, and \<open>str\<close> for \<open>None\<close> and \<open>MISSING\<close>. A
  copy of the sentinel is not in \<open>{None, MISSING}\<close> and gets its own class.
\<close>

fun type_of :: "val \<Rightarrow> pytype" where
  "type_of (VBool b) = TBool"
| "type_of (VInt i) = TInt"
| "type_of (VStr s) = TStr"
| "type_of (VTuple xs) = TTuple"
| "type_of (VList xs) = TList"
| "type_of VNone = TStr"
| "type_of VMissing = TStr"
| "type_of VMissingCopy = TMissingType"

fun to_arg_format :: "val dict \<Rightarrow> error + (pytype \<times> val) dict" where
  "to_arg_format cfg =
     foldM (\<lambda>(key, v) res_cfg.
        case v of
          Dict d \<Rightarrow>
            (case to_arg_format d of
               Inl e \<Rightarrow> Inl e
             | Inr d' \<Rightarrow> Inr (setitem key (Dict d') res_cfg))
        | Term x \<Rightarrow>
            if \<not> hashable x then Inl TypeError
            else Inr (setitem key (Term (type_of x, x)) res_cfg)) cfg []"

subsection \<open>Schema expansion\<close>

definition endswith :: "string \<Rightarrow> string \<Rightarrow> bool" where
  "endswith s suf = (length suf \<le> length s \<and> drop (length s - length suf) s = suf)"

text \<open>\<open>key[:-len("_class")]\<close>.\<close>

definition stem_of :: "string \<Rightarrow> string" where
  "stem_of key = take (length key - length ''_class'') key"

text \<open>The dict comprehension \<open>{field.name: (field.type, field.default) for field in fields}\<close>.\<close>

definition params_of :: "schema \<Rightarrow> (pytype \<times> val) dict" where
  "params_of flds = fold (\<lambda>(name, tp, dflt). setitem name (Term (tp, dflt))) flds []"

text \<open>
  \<open>add_default_args\<close> calls itself on nested dicts and on the fields of the class that a
  selector names. Nothing bounds the second kind of call: a class whose own selector
  field defaults to the class itself is expanded until Python's recursion limit raises
  \<open>RecursionError\<close>. The first argument is that limit, the number of nested calls that
  are still allowed.
\<close>

fun add_default_args ::
  "nat \<Rightarrow> registry \<Rightarrow> (pytype \<times> val) dict \<Rightarrow> error + (pytype \<times> val) dict" where
  "add_default_args 0 reg cfg = Inl RecursionError"
| "add_default_args (Suc depth) reg cfg =
     foldM (\<lambda>(key, v) res_cfg.
        case v of
          Dict d \<Rightarrow>
            (case add_default_args depth reg d of
               Inl e \<Rightarrow> Inl e
             | Inr d' \<Rightarrow> Inr (setitem key (Dict d') res_cfg))
        | Term (tp, x) \<Rightarrow>
            if endswith key ''_class'' then
              (let res_cfg = setitem key v res_cfg in
               if x = VMissing then Inr res_cfg
               else
                 case get_cfg_class reg x of
                   Inl e \<Rightarrow> Inl e
                 | Inr cls \<Rightarrow>
                     (let stem = stem_of key;
                          params = params_of (snd cls)
                      in case (if contains cfg stem then
                                 (case map_of cfg stem of
                                    Some (Dict d) \<Rightarrow> Inr (dict_update params d)
                                  | _ \<Rightarrow> Inl InvalidOverride)
                               else Inr params) of
                           Inl e \<Rightarrow> Inl e
                         | Inr params \<Rightarrow>
                             (case add_default_args depth reg params of
                                Inl e \<Rightarrow> Inl e
                              | Inr d' \<Rightarrow> Inr (setitem stem (Dict d') res_cfg))))
            else Inr (setitem key v res_cfg)) cfg []"

subsection \<open>Flattening and its inverse\<close>

fun deep_to_flat :: "'a dict \<Rightarrow> 'a flat" where
  "deep_to_flat cfg =
     fold (\<lambda>(key, v) res_cfg.
        case v of
          Dict d \<Rightarrow>
            fold (\<lambda>(sub_key, sub_val). setitem (key @ ''.'' @ sub_key) sub_val)
              (deep_to_flat d) res_cfg
        | Term x \<Rightarrow> setitem key x res_cfg) cfg []"

text \<open>\<open>key.split(".", 1)\<close> for a key that contains a dot: the parts around the first dot.\<close>

definition split_key :: "string \<Rightarrow> string \<times> string" where
  "split_key key =
     (takeWhile (\<lambda>c. c \<noteq> CHR ''.'') key, tl (dropWhile (\<lambda>c. c \<noteq> CHR ''.'') key))"

text \<open>
  The first loop of \<open>flat_to_deep\<close> resolves one level of nesting. Its result maps a key
  to a terminal (\<open>Inl\<close>) or to the flat dict collected under that root (\<open>Inr\<close>). Storing
  a leaf under a root that holds a terminal is a \<open>TypeError\<close> (item assignment on a value
  that is not a dict).
\<close>

definition resolve_entry ::
  "string \<times> 'a \<Rightarrow> (string \<times> ('a + 'a flat)) list \<Rightarrow> error + (string \<times> ('a + 'a flat)) list" where
  "resolve_entry = (\<lambda>(key, v) res_cfg.
        if CHR ''.'' \<in> set key then
          (let (root, leaf) = split_key key;
               res_cfg = (if \<not> contains res_cfg root then setitem root (Inr []) res_cfg else res_cfg)
           in case map_of res_cfg root of
                Some (Inr sub) \<Rightarrow> Inr (setitem root (Inr (setitem leaf v sub)) res_cfg)
              | _ \<Rightarrow> Inl TypeError)
        else Inr (setitem key (Inl v) res_cfg))"

definition resolve_level :: "'a flat \<Rightarrow> error + (string \<times> ('a + 'a flat)) list" where
  "resolve_level cfg = foldM resolve_entry cfg []"

text \<open>The measure of the recursion of \<open>flat_to_deep\<close>: the total length of the keys.\<close>

definition flat_size :: "'a flat \<Rightarrow> nat" where
  "flat_size cfg = sum_list (map (\<lambda>(k, v). Suc (length k)) cfg)"

definition level_weight :: "(string \<times> ('a + 'a flat)) list \<Rightarrow> nat" where
  "level_weight res =
     sum_list (map (\<lambda>(k, s). case s of Inl x \<Rightarrow> 0 | Inr sub \<Rightarrow> Suc (flat_size sub)) res)"

lemma foldM_append:
  "foldM f (xs @ ys) acc = (case foldM f xs acc of Inl e \<Rightarrow> Inl e | Inr a \<Rightarrow> foldM f ys a)"
  by (induction xs arbitrary: acc) (auto split: sum.splits)

lemma sum_list_update_le:
  fixes f :: "'k \<times> 'v \<Rightarrow> nat"
  shows "sum_list (map f (AList.update k v xs)) \<le> sum_list (map f xs) + f (k, v)"
  by (induction xs) (auto simp: AList.update.simps)

lemma sum_list_update_Some:
  fixes f :: "'k \<times> 'v \<Rightarrow> nat"
  shows "map_of xs k = Some old \<Longrightarrow>
   sum_list (map f (AList.update k v xs)) + f (k, old) = sum_list (map f xs) + f (k, v)"
  by (induction xs) (auto simp: AList.update.simps split: if_splits)

lemma flat_size_update_le: "flat_size (AList.update k v xs) \<le> flat_size xs + Suc (length k)"
  unfolding flat_size_def using sum_list_update_le [of "\<lambda>(k, v). Suc (length k)" k v xs] by simp

lemma split_key_length:
  assumes "CHR ''.'' \<in> set key" and "split_key key = (root, leaf)"
  shows "length key = length root + 1 + length leaf"
proof -
  have "dropWhile (\<lambda>c. c \<noteq> CHR ''.'') key \<noteq> []"
    using assms(1) by (simp add: dropWhile_eq_Nil_conv)
  then have "length (tl (dropWhile (\<lambda>c. c \<noteq> CHR ''.'') key)) + 1
      = length (dropWhile (\<lambda>c. c \<noteq> CHR ''.'') key)"
    by (cases "dropWhile (\<lambda>c. c \<noteq> CHR ''.'') key") auto
  moreover have "length (takeWhile (\<lambda>c. c \<noteq> CHR ''.'') key)
      + length (dropWhile (\<lambda>c. c \<noteq> CHR ''.'') key) = length key"
    by (metis length_append takeWhile_dropWhile_id)
  ultimately show ?thesis using assms(2) by (auto simp: split_key_def)
qed

lemma level_weight_member:
  "(k, Inr sub) \<in> set res \<Longrightarrow> Suc (flat_size sub) \<le> level_weight res"
  unfolding level_weight_def
  by (induction res) (auto split: sum.splits)

lemma resolve_entry_weight:
  assumes "resolve_entry (key, v) res = Inr res'"
  shows "level_weight res' \<le> level_weight res + Suc (length key)"
proof (cases "CHR ''.'' \<in> set key")
  case False
  with assms have "res' = AList.update key (Inl v) res" by (simp add: resolve_entry_def)
  then show ?thesis
    unfolding level_weight_def
    using sum_list_update_le
      [of "\<lambda>(k, s). case s of Inl x \<Rightarrow> 0 | Inr sub \<Rightarrow> Suc (flat_size sub)" key "Inl v" res]
    by simp
next
  case True
  obtain root leaf where sk: "split_key key = (root, leaf)" by (cases "split_key key")
  have len: "length key = length root + 1 + length leaf" using split_key_length [OF True sk] .
  let ?w = "\<lambda>(k, s). case s of Inl (x::'a) \<Rightarrow> 0 | Inr sub \<Rightarrow> Suc (flat_size sub)"
  show ?thesis
  proof (cases "contains res root")
    case False
    from assms True sk False
    have "res' = AList.update root (Inr [(leaf, v)]) (AList.update root (Inr []) res)"
      by (simp add: resolve_entry_def update_conv')
    then have "res' = AList.update root (Inr [(leaf, v)]) res" by simp
    then have "level_weight res' \<le> level_weight res + Suc (flat_size [(leaf, v)])"
      unfolding level_weight_def
      using sum_list_update_le [of ?w root "Inr [(leaf, v)]" res] by simp
    then show ?thesis using len by (simp add: flat_size_def)
  next
    case c: True
    with assms True sk obtain sub where sub: "map_of res root = Some (Inr sub)"
      and r: "res' = AList.update root (Inr (AList.update leaf v sub)) res"
      by (auto simp: resolve_entry_def split: option.splits sum.splits)
    have "level_weight res' + Suc (flat_size sub)
        = level_weight res + Suc (flat_size (AList.update leaf v sub))"
      unfolding level_weight_def r
      using sum_list_update_Some [OF sub, of ?w "Inr (AList.update leaf v sub)"] by simp
    then show ?thesis using flat_size_update_le [of leaf v sub] len by simp
  qed
qed

lemma foldM_resolve_weight:
  "foldM resolve_entry cfg res = Inr res' \<Longrightarrow> level_weight res' \<le> level_weight res + flat_size cfg"
proof (induction cfg arbitrary: res)
  case Nil
  then show ?case by (simp add: flat_size_def)
next
  case (Cons p cfg)
  obtain key v where p: "p = (key, v)" by (cases p)
  from Cons.prems obtain res1 where s1: "resolve_entry (key, v) res = Inr res1"
    and s2: "foldM resolve_entry cfg res1 = Inr res'"
    by (auto simp: p split: sum.splits)
  from resolve_entry_weight [OF s1] Cons.IH [OF s2] show ?case
    by (simp add: p flat_size_def)
qed

lemma resolve_level_smaller:
  assumes "resolve_level cfg = Inr res" and "(k, Inr sub) \<in> set res"
  shows "flat_size sub < flat_size cfg"
proof -
  have "level_weight res \<le> flat_size cfg"
    using foldM_resolve_weight [of cfg "[]" res] assms(1)
    by (simp add: resolve_level_def level_weight_def)
  with level_weight_member [OF assms(2)] show ?thesis by simp
qed

text \<open>
  \<open>flat_to_deep\<close>: the first loop resolves one level, the second replaces every collected
  flat dict by its nested form. The argument is a flat configuration, as the docstring
  requires: its values are terminals.
\<close>

function flat_to_deep :: "'a flat \<Rightarrow> error + 'a dict" where
  "flat_to_deep cfg =
     (case resolve_level cfg of
        Inl e \<Rightarrow> Inl e
      | Inr res_cfg \<Rightarrow>
          foldM (\<lambda>(key, v) res.
             case v of
               Inr sub \<Rightarrow>
                 (case flat_to_deep sub of
                    Inl e \<Rightarrow> Inl e
                  | Inr d \<Rightarrow> Inr (res @ [(key, Dict d)]))
             | Inl x \<Rightarrow> Inr (res @ [(key, Term x)])) res_cfg [])"
  by pat_completeness auto
termination
  by (relation "measure flat_size") (auto dest: resolve_level_smaller)

declare flat_to_deep.simps [simp del]

subsection \<open>Argument converters\<close>

text \<open>\<open>str.lower\<close> on the letters of ASCII.\<close>

definition lower_char :: "char \<Rightarrow> char" where
  "lower_char c =
     (let n = (of_char c :: nat) in if 65 \<le> n \<and> n \<le> 90 then char_of (n + 32) else c)"

definition str2bool :: "string \<Rightarrow> error + val" where
  "str2bool v =
     (if map lower_char v \<in> set [''yes'', ''true'', ''t'', ''y'', ''1''] then Inr (VBool True)
      else if map lower_char v \<in> set [''no'', ''false'', ''f'', ''n'', ''0''] then Inr (VBool False)
      else Inl InvalidArgument)"

text \<open>
  \<open>ast.literal_eval\<close> is the first argument: it returns the value of a literal, or raises
  (\<open>SyntaxError\<close> or \<open>ValueError\<close>) on a token that is not one. \<open>arg_as_tuple\<close> does
  not handle these exceptions.
\<close>

definition arg_as_tuple :: "(string \<Rightarrow> error + val) \<Rightarrow> string \<Rightarrow> error + val" where
  "arg_as_tuple literal_eval s =
     (case literal_eval s of
        Inl e \<Rightarrow> Inl e
      | Inr v \<Rightarrow> (case v of VTuple xs \<Rightarrow> Inr v | _ \<Rightarrow> Inl InvalidArgument))"

subsection \<open>The argument surface\<close>

text \<open>
  The \<open>type\<close> keyword of \<open>add_argument\<close>: none, \<open>str2bool\<close>, \<open>arg_as_tuple\<close>, or a type
  that is called on the token. An \<open>arg_spec\<close> records one call
  \<open>parser.add_argument("--" + dest, dest=dest, help=dest, default=..., type=...)\<close>;
  \<open>default_val = None\<close> says that the call gives no default. The parser that
  \<open>get_arg_parser\<close> returns is the list of these calls.
\<close>

datatype converter = NoType | Str2Bool | ArgAsTuple | TypeCall pytype

record arg_spec =
  dest :: string
  default_val :: "val option"
  conv :: converter

definition get_arg_parser :: "(pytype \<times> val) flat \<Rightarrow> arg_spec list" where
  "get_arg_parser cfg =
     map (\<lambda>(arg, tp, v).
        \<lparr>dest = arg,
         default_val = (if v \<noteq> VMissing then Some v else None),
         conv = (if tp = TBool then Str2Bool else if tp = TTuple then ArgAsTuple else TypeCall tp)\<rparr>)
       cfg"

text \<open>
  \<open>parse_known_args\<close> of a parser built from a list of \<open>add_argument\<close> calls: from the
  tokens to the namespace (as a flat dict, \<open>vars(namespace)\<close>) and the tokens it did not
  recognise, or an exception. The functions of this module take it as a parameter.
\<close>

type_synonym parser = "arg_spec list \<Rightarrow> string list \<Rightarrow> error + (val flat \<times> string list)"

subsection \<open>A model of the argument parser\<close>

text \<open>
  The parameter is instantiated by the following model of
  \<open>argparse.ArgumentParser.parse_known_args\<close> (CPython 3.8 to 3.11) for parsers as
  \<open>get_arg_parser\<close> and \<open>apply_cfg_file\<close> build them: optional arguments with one
  long option string each, exactly one value per option, abbreviations allowed, and the
  help option that every parser has. It covers: exact option strings, \<open>--name=value\<close>,
  unique prefixes of option strings (several matches are an error), the classification
  of negative numbers and of tokens with a space as values, unknown options and stray
  values returned as unrecognised tokens, defaults set first and string defaults
  converted when their option was not given. The separator \<open>--\<close> is not modelled (it
  is classified like any other token), and \<open>int\<close> accepts an optional sign followed by
  ASCII digits only. Errors that the parser reports by \<open>parser.error\<close> and the help
  action are \<open>ParserExit\<close>.
\<close>

definition is_digit :: "char \<Rightarrow> bool" where
  "is_digit c = (c \<in> set ''0123456789'')"

definition digits_val :: "string \<Rightarrow> int" where
  "digits_val ds = foldl (\<lambda>a c. 10 * a + (int (of_char c) - 48)) 0 ds"

definition py_int :: "string \<Rightarrow> error + val" where
  "py_int s =
     (let (neg, ds) = (case s of
                         c # r \<Rightarrow> if c = CHR ''-'' then (True, r)
                                  else if c = CHR ''+'' then (False, r) else (False, s)
                       | [] \<Rightarrow> (False, s))
      in if ds \<noteq> [] \<and> list_all is_digit ds
         then Inr (VInt (if neg then - digits_val ds else digits_val ds))
         else Inl ValueError)"

text \<open>
  The call \<open>tp(token)\<close> of a type on a token. The class of the sentinel takes no
  argument: calling it on a token is a \<open>TypeError\<close>.
\<close>

definition type_call :: "pytype \<Rightarrow> string \<Rightarrow> error + val" where
  "type_call tp s =
     (case tp of
        TStr \<Rightarrow> Inr (VStr s)
      | TInt \<Rightarrow> py_int s
      | TBool \<Rightarrow> Inr (VBool (s \<noteq> []))
      | TTuple \<Rightarrow> Inr (VTuple (map (\<lambda>c. VStr [c]) s))
      | TList \<Rightarrow> Inr (VList (map (\<lambda>c. VStr [c]) s))
      | TMissingType \<Rightarrow> Inl TypeError)"

text \<open>
  \<open>ArgumentParser._get_value\<close>: \<open>ArgumentTypeError\<close>, \<open>TypeError\<close> and \<open>ValueError\<close>
  of the converter are reported by \<open>parser.error\<close>, any other exception propagates.
\<close>

definition get_value :: "(string \<Rightarrow> error + val) \<Rightarrow> converter \<Rightarrow> string \<Rightarrow> error + val" where
  "get_value literal_eval c s =
     (case (case c of
              NoType \<Rightarrow> Inr (VStr s)
            | Str2Bool \<Rightarrow> str2bool s
            | ArgAsTuple \<Rightarrow> arg_as_tuple literal_eval s
            | TypeCall tp \<Rightarrow> type_call tp s) of
        Inl InvalidArgument \<Rightarrow> Inl ParserExit
      | Inl TypeError \<Rightarrow> Inl ParserExit
      | Inl ValueError \<Rightarrow> Inl ParserExit
      | Inl e \<Rightarrow> Inl e
      | Inr v \<Rightarrow> Inr v)"

datatype token_class =
    Positional
  | Unknown
  | Ambiguous
  | Matched "arg_spec option" "string option"

definition option_table :: "arg_spec list \<Rightarrow> (string \<times> arg_spec option) list" where
  "option_table specs =
     (''-h'', None) # (''--help'', None) # map (\<lambda>a. (''--'' @ dest a, Some a)) specs"

definition startswith :: "string \<Rightarrow> string \<Rightarrow> bool" where
  "startswith s pre = (take (length pre) s = pre)"

definition negative_number :: "string \<Rightarrow> bool" where
  "negative_number s =
     (case s of
        c # r \<Rightarrow>
          c = CHR ''-'' \<and>
          ((r \<noteq> [] \<and> list_all is_digit r) \<or>
           (let ip = takeWhile is_digit r; fp = dropWhile is_digit r
            in case fp of d # ds \<Rightarrow> d = CHR ''.'' \<and> ds \<noteq> [] \<and> list_all is_digit ds | [] \<Rightarrow> False))
      | [] \<Rightarrow> False)"

definition parse_optional :: "(string \<times> arg_spec option) list \<Rightarrow> string \<Rightarrow> token_class" where
  "parse_optional table tok =
     (if tok = [] then Positional
      else if hd tok \<noteq> CHR ''-'' then Positional
      else case map_of table tok of
        Some a \<Rightarrow> Matched a None
      | None \<Rightarrow>
          if length tok = 1 then Positional
          else
            let name = takeWhile (\<lambda>c. c \<noteq> CHR ''='') tok;
                arg = (if CHR ''='' \<in> set tok
                       then Some (tl (dropWhile (\<lambda>c. c \<noteq> CHR ''='') tok)) else None)
            in case (if CHR ''='' \<in> set tok then map_of table name else None) of
                 Some a \<Rightarrow> Matched a arg
               | None \<Rightarrow>
                   (case (if tok ! 1 = CHR ''-''
                          then map (\<lambda>(s, a). Matched a arg) (filter (\<lambda>(s, a). startswith s name) table)
                          else concat (map (\<lambda>(s, a).
                                 if s = take 2 tok then [Matched a (Some (drop 2 tok))]
                                 else if startswith s tok then [Matched a None] else []) table)) of
                      [m] \<Rightarrow> m
                    | _ # _ # _ \<Rightarrow> Ambiguous
                    | [] \<Rightarrow>
                        if negative_number tok then Positional
                        else if CHR '' '' \<in> set tok then Positional
                        else Unknown))"

fun consume ::
  "(string \<Rightarrow> error + val) \<Rightarrow> (string \<times> arg_spec option) list \<Rightarrow> string list \<Rightarrow>
   val flat \<times> string list \<times> string list \<Rightarrow> error + (val flat \<times> string list \<times> string list)" where
  "consume le table [] st = Inr st"
| "consume le table (tok # rest) (ns, extras, seen) =
     (case parse_optional table tok of
        Positional \<Rightarrow> consume le table rest (ns, extras @ [tok], seen)
      | Unknown \<Rightarrow> consume le table rest (ns, extras @ [tok], seen)
      | Ambiguous \<Rightarrow> Inl ParserExit
      | Matched None arg \<Rightarrow> Inl ParserExit
      | Matched (Some a) (Some s) \<Rightarrow>
          (case get_value le (conv a) s of
             Inl e \<Rightarrow> Inl e
           | Inr v \<Rightarrow> consume le table rest (setitem (dest a) v ns, extras, dest a # seen))
      | Matched (Some a) None \<Rightarrow>
          (case rest of
             [] \<Rightarrow> Inl ParserExit
           | s # rest' \<Rightarrow>
               if parse_optional table s \<noteq> Positional then Inl ParserExit
               else
                 case get_value le (conv a) s of
                   Inl e \<Rightarrow> Inl e
                 | Inr v \<Rightarrow> consume le table rest' (setitem (dest a) v ns, extras, dest a # seen)))"

definition parse_known_args :: "(string \<Rightarrow> error + val) \<Rightarrow> parser" where
  "parse_known_args le specs args =
     (if ''help'' \<in> set (map dest specs) \<or> \<not> distinct (map dest specs) then Inl ArgumentError
      else if list_ex (\<lambda>tok. parse_optional (option_table specs) tok = Ambiguous) args
      then Inl ParserExit
      else
        let ns = fold (\<lambda>a ns. case default_val a of Some v \<Rightarrow> setitem (dest a) v ns | None \<Rightarrow> ns)
                   specs []
        in case consume le (option_table specs) args (ns, [], []) of
             Inl e \<Rightarrow> Inl e
           | Inr (ns, extras, seen) \<Rightarrow>
               (case foldM (\<lambda>a ns.
                        case default_val a of
                          Some (VStr s) \<Rightarrow>
                            if dest a \<in> set seen then Inr ns
                            else (case get_value le (conv a) s of
                                    Inl e \<Rightarrow> Inl e
                                  | Inr v \<Rightarrow> Inr (setitem (dest a) v ns))
                        | _ \<Rightarrow> Inr ns) specs ns of
                  Inl e \<Rightarrow> Inl e
                | Inr ns \<Rightarrow> Inr (ns, extras)))"


subsection \<open>File overrides\<close>

text \<open>
  \<open>load\<close> stands for \<open>open(cfg_file)\<close> followed by \<open>yaml.load\<close>, applied to the value
  of \<open>cfg_file\<close>. The parser of \<open>apply_cfg_file\<close> has the single argument
  \<open>--cfg_file\<close> with default \<open>cfg["cfg_file"]\<close> and no type. The parser returns a
  default that is not a string as it is, so a nested dict under \<open>cfg_file\<close> is kept
  aside and is the value of \<open>namespace.cfg_file\<close> when the tokens give no other;
  \<open>open\<close> of a dict is a \<open>TypeError\<close>, and a loaded document that is not a mapping has
  no \<open>items\<close> (\<open>AttributeError\<close>).
\<close>

definition apply_cfg_file ::
  "parser \<Rightarrow> (val \<Rightarrow> error + val cfg) \<Rightarrow> val dict \<Rightarrow> string list \<Rightarrow> error + val dict" where
  "apply_cfg_file pk load cfg args =
     (case map_of cfg ''cfg_file'' of
        None \<Rightarrow> Inl (KeyError ''cfg_file'')
      | Some dflt \<Rightarrow>
          (case pk [\<lparr>dest = ''cfg_file'',
                     default_val = (case dflt of Term v \<Rightarrow> Some v | Dict d \<Rightarrow> None),
                     conv = NoType\<rparr>] args of
             Inl e \<Rightarrow> Inl e
           | Inr (namespace, unknown) \<Rightarrow>
               (let cfg_file = (case map_of namespace ''cfg_file'' of
                                  Some v \<Rightarrow> Term v
                                | None \<Rightarrow> dflt)
                in if cfg_file = Term VMissing then Inr cfg
                   else
                     case (case cfg_file of Term v \<Rightarrow> load v | Dict d \<Rightarrow> Inl TypeError) of
                       Inl e \<Rightarrow> Inl e
                     | Inr (Term x) \<Rightarrow> Inl AttributeError
                     | Inr (Dict loaded_cfg) \<Rightarrow>
                         flat_to_deep (dict_update (deep_to_flat cfg) (deep_to_flat loaded_cfg)))))"

subsection \<open>The resolution loop\<close>

text \<open>
  One iteration of the \<open>while\<close> loop of \<open>parse_args\<close>, up to the check that every key
  of the surface was supplied: the configuration in argument format, schema expansion,
  flattening, the parser, the parse, the check.
\<close>

definition parse_iteration ::
  "parser \<Rightarrow> nat \<Rightarrow> registry \<Rightarrow> string list \<Rightarrow> val dict \<Rightarrow> error + (val flat \<times> string list)" where
  "parse_iteration pk depth reg args cfg =
     (case to_arg_format cfg of
        Inl e \<Rightarrow> Inl e
      | Inr cfg \<Rightarrow>
          (case add_default_args depth reg cfg of
             Inl e \<Rightarrow> Inl e
           | Inr cfg \<Rightarrow>
               (let cfg = deep_to_flat cfg in
                case pk (get_arg_parser cfg) args of
                  Inl e \<Rightarrow> Inl e
                | Inr (parsed_cfg, unparsed) \<Rightarrow>
                    (case find (\<lambda>key. \<not> contains parsed_cfg key) (map fst cfg) of
                       Some key \<Rightarrow> Inl (UnresolvedArgument key)
                     | None \<Rightarrow> Inr (parsed_cfg, unparsed)))))"

text \<open>\<open>continue_parsing = unparsed is None or len(unparsed) > 0\<close>.\<close>

definition continuing :: "string list option \<Rightarrow> bool" where
  "continuing unparsed = (case unparsed of None \<Rightarrow> True | Some u \<Rightarrow> length u > 0)"

text \<open>
  The loop, entered when \<open>continue_parsing\<close> holds. The state is the configuration,
  \<open>nb_unparsed\<close> and \<open>unparsed\<close> (\<open>None\<close> before the first parse). The first component
  of the result counts the iterations that were executed; the second is the
  configuration at the exit of the loop, or the exception. The recursion is
  well-founded because an iteration that continues has made \<open>nb_unparsed\<close> smaller.
\<close>

function parse_loop ::
  "parser \<Rightarrow> nat \<Rightarrow> registry \<Rightarrow> string list \<Rightarrow> val dict \<Rightarrow> nat \<Rightarrow> string list option
    \<Rightarrow> nat \<times> (error + val dict)" where
  "parse_loop pk depth reg args cfg nb_unparsed unparsed =
     (let continue_parsing = continuing unparsed in
      case parse_iteration pk depth reg args cfg of
        Inl e \<Rightarrow> (1, Inl e)
      | Inr (parsed_cfg, unparsed') \<Rightarrow>
          if continue_parsing \<and> length unparsed' \<ge> nb_unparsed then (1, Inl StalledResolution)
          else
            case flat_to_deep parsed_cfg of
              Inl e \<Rightarrow> (1, Inl e)
            | Inr cfg' \<Rightarrow>
                if continue_parsing
                then (let (n, r) = parse_loop pk depth reg args cfg' (length unparsed') (Some unparsed')
                      in (Suc n, r))
                else (1, Inr cfg'))"
  by pat_completeness auto
termination
  by (relation "measure (\<lambda>(pk, depth, reg, args, cfg, nb_unparsed, unparsed). nb_unparsed)") auto

declare parse_loop.simps [simp del]

text \<open>
  \<open>parse_args\<close>. \<open>argv\<close> is \<open>sys.argv[1:]\<close>, used when \<open>args\<close> is \<open>None\<close>.
\<close>

definition parse_args ::
  "parser \<Rightarrow> (val \<Rightarrow> error + val cfg) \<Rightarrow> nat \<Rightarrow> registry \<Rightarrow> string list \<Rightarrow>
   (string \<times> tcfg) list \<Rightarrow> string list option \<Rightarrow> error + (string \<times> tcfg) list" where
  "parse_args pk load depth reg argv cfg args =
     (let args = (case args of None \<Rightarrow> argv | Some a \<Rightarrow> a);
          cfg = to_dict_format cfg
      in case (if contains cfg ''cfg_file'' then apply_cfg_file pk load cfg args else Inr cfg) of
           Inl e \<Rightarrow> Inl e
         | Inr cfg \<Rightarrow>
             (case snd (parse_loop pk depth reg args cfg (length args) None) of
                Inl e \<Rightarrow> Inl e
              | Inr cfg \<Rightarrow> to_cls_format reg cfg))"

text \<open>
  \<open>parse_args\<close> once more, with the number of iterations of the \<open>while\<close> loop that it
  executed as first component: none when the file merger raises before the loop. The
  second component is \<open>parse_args\<close> itself (\<open>parse_args_run_result\<close>).
\<close>

definition parse_args_run ::
  "parser \<Rightarrow> (val \<Rightarrow> error + val cfg) \<Rightarrow> nat \<Rightarrow> registry \<Rightarrow> string list \<Rightarrow>
   (string \<times> tcfg) list \<Rightarrow> string list option \<Rightarrow> nat \<times> (error + (string \<times> tcfg) list)" where
  "parse_args_run pk load depth reg argv cfg args =
     (let args = (case args of None \<Rightarrow> argv | Some a \<Rightarrow> a);
          cfg = to_dict_format cfg
      in case (if contains cfg ''cfg_file'' then apply_cfg_file pk load cfg args else Inr cfg) of
           Inl e \<Rightarrow> (0, Inl e)
         | Inr cfg \<Rightarrow>
             (let (n, r) = parse_loop pk depth reg args cfg (length args) None
              in (n, case r of Inl e \<Rightarrow> Inl e | Inr cfg \<Rightarrow> to_cls_format reg cfg)))"

text \<open>
  The state in which the loop of \<open>parse_args\<close>, started on \<open>cfg0\<close>, begins its iteration
  number \<open>n + 1\<close>: the configuration, \<open>nb_unparsed\<close> and \<open>unparsed\<close>; \<open>None\<close> when the
  loop has stopped before. The loop goes on after an iteration that raises nothing, was
  set to continue and made the number of unrecognised tokens smaller
  (\<open>loop_state_run\<close> relates these states to \<open>parse_loop\<close>).
\<close>

fun loop_state ::
  "parser \<Rightarrow> nat \<Rightarrow> registry \<Rightarrow> string list \<Rightarrow> val dict \<Rightarrow> nat
    \<Rightarrow> (val dict \<times> nat \<times> string list option) option" where
  "loop_state pk depth reg args cfg0 0 = Some (cfg0, length args, None)"
| "loop_state pk depth reg args cfg0 (Suc n) =
     (case loop_state pk depth reg args cfg0 n of
        None \<Rightarrow> None
      | Some (cfg, nb_unparsed, unparsed) \<Rightarrow>
          (case parse_iteration pk depth reg args cfg of
             Inl e \<Rightarrow> None
           | Inr (parsed_cfg, unparsed') \<Rightarrow>
               if continuing unparsed \<and> length unparsed' < nb_unparsed
               then (case flat_to_deep parsed_cfg of
                       Inl e \<Rightarrow> None
                     | Inr cfg' \<Rightarrow> Some (cfg', length unparsed', Some unparsed'))
               else None))"

subsection \<open>Sample registry, literals and files\<close>

text \<open>
  The registry of the end-to-end example: class \<open>A\<close> with the field \<open>x: int = 1\<close> and
  class \<open>B\<close> with the field \<open>y: int = 2\<close>.
\<close>

definition reg_AB :: registry where
  "reg_AB name =
     (if name = ''A'' then Some [(''x'', TInt, VInt 1)]
      else if name = ''B'' then Some [(''y'', TInt, VInt 2)]
      else None)"

text \<open>
  The answers of \<open>ast.literal_eval\<close> to the tokens of the examples: the tuple literal
  \<open>(1, 2)\<close>, the list literal \<open>[1, 2]\<close>, and \<open>SyntaxError\<close> for the malformed token
  \<open>(1, 2\<close>, whose bracket is never closed. The table answers every other token like
  the malformed one; it is used at these three tokens only, and the theorems that speak
  about every token take the evaluator as a parameter.
\<close>

definition literal_eval_sample :: "string \<Rightarrow> error + val" where
  "literal_eval_sample s =
     (if s = ''(1, 2)'' then Inr (VTuple [VInt 1, VInt 2])
      else if s = ''[1, 2]'' then Inr (VList [VInt 1, VInt 2])
      else Inl SyntaxError)"

text \<open>A file system without configuration files, and one with the file \<open>f.yaml\<close>.\<close>

definition no_file :: "val \<Rightarrow> error + val cfg" where
  "no_file path = Inl FileError"

definition one_file :: "val dict \<Rightarrow> val \<Rightarrow> error + val cfg" where
  "one_file content path = (if path = VStr ''f.yaml'' then Inr (Dict content) else Inl FileError)"

text \<open>
  The registry with the class \<open>M\<close>, whose field \<open>f: str\<close> has no default.
\<close>

definition reg_M :: registry where
  "reg_M name = (if name = ''M'' then Some [(''f'', TStr, VMissing)] else None)"

text \<open>
  A file system with two configuration files: \<open>f.yaml\<close> sets \<open>k\<close> and the entry \<open>b\<close>
  of the mapping \<open>m\<close>; \<open>g.yaml\<close> sets \<open>k\<close> and a mapping \<open>a\<close>.
\<close>

definition two_files :: "val \<Rightarrow> error + val cfg" where
  "two_files path =
     (if path = VStr ''f.yaml''
      then Inr (Dict [(''k'', Term (VInt 7)), (''m'', Dict [(''b'', Term (VInt 5))])])
      else if path = VStr ''g.yaml''
      then Inr (Dict [(''k'', Term (VInt 7)), (''a'', Dict [(''b'', Term (VInt 2))])])
      else Inl FileError)"

subsection \<open>Well-formed configurations\<close>

text \<open>
  The lists that are dicts: keys pairwise distinct at every level (\<open>wf_dict\<close>). The
  convention of the flat form, no key with a dot (\<open>dotless\<close>). The configurations
  that have no empty nested dict (\<open>filled\<close>).
\<close>

fun wf_dict :: "'a dict \<Rightarrow> bool" where
  "wf_dict cfg =
     (distinct (map fst cfg) \<and>
      list_all (\<lambda>(k, v). case v of Dict d \<Rightarrow> wf_dict d | Term x \<Rightarrow> True) cfg)"

fun dotless :: "'a dict \<Rightarrow> bool" where
  "dotless cfg =
     list_all (\<lambda>(k, v). CHR ''.'' \<notin> set k \<and> (case v of Dict d \<Rightarrow> dotless d | Term x \<Rightarrow> True)) cfg"

fun filled :: "'a dict \<Rightarrow> bool" where
  "filled cfg = list_all (\<lambda>(k, v). case v of Dict d \<Rightarrow> d \<noteq> [] \<and> filled d | Term x \<Rightarrow> True) cfg"

declare wf_dict.simps [simp del] dotless.simps [simp del] filled.simps [simp del]

text \<open>
  For the proofs: the flat entries that one entry of a configuration contributes, the
  entry of the first loop of \<open>flat_to_deep\<close> they are collected into, the part of a
  key before its first dot, and the bodies of the loops of \<open>deep_to_flat\<close> and of
  the second loop of \<open>flat_to_deep\<close> as functions of their own.
\<close>

definition flat_entry :: "string \<times> 'a cfg \<Rightarrow> 'a flat" where
  "flat_entry = (\<lambda>(key, v).
     case v of
       Dict d \<Rightarrow> map (\<lambda>(sub_key, sub_val). (key @ ''.'' @ sub_key, sub_val)) (deep_to_flat d)
     | Term x \<Rightarrow> [(key, x)])"

definition level_entry :: "string \<times> 'a cfg \<Rightarrow> string \<times> ('a + 'a flat)" where
  "level_entry = (\<lambda>(key, v).
     case v of Dict d \<Rightarrow> (key, Inr (deep_to_flat d)) | Term x \<Rightarrow> (key, Inl x))"

definition root_of :: "string \<Rightarrow> string" where
  "root_of key = takeWhile (\<lambda>c. c \<noteq> CHR ''.'') key"

definition flatten_entry :: "string \<times> 'a cfg \<Rightarrow> 'a flat \<Rightarrow> 'a flat" where
  "flatten_entry = (\<lambda>(key, v) res_cfg.
        case v of
          Dict d \<Rightarrow>
            fold (\<lambda>(sub_key, sub_val). setitem (key @ ''.'' @ sub_key) sub_val)
              (deep_to_flat d) res_cfg
        | Term x \<Rightarrow> setitem key x res_cfg)"

definition nest_entry :: "string \<times> ('a + 'a flat) \<Rightarrow> 'a dict \<Rightarrow> error + 'a dict" where
  "nest_entry = (\<lambda>(key, v) res.
             case v of
               Inr sub \<Rightarrow>
                 (case flat_to_deep sub of
                    Inl e \<Rightarrow> Inl e
                  | Inr d \<Rightarrow> Inr (res @ [(key, Dict d)]))
             | Inl x \<Rightarrow> Inr (res @ [(key, Term x)]))"

text \<open>
  No key of a flat configuration continues another key after a dot: the flat
  configuration does not ask for a terminal and for a nested dict under the same path.
\<close>

definition prefix_free :: "'a flat \<Rightarrow> bool" where
  "prefix_free cfg =
     list_all (\<lambda>k. list_all (\<lambda>k'. \<not> startswith k' (k @ ''.'')) (map fst cfg)) (map fst cfg)"

text \<open>
  For the proofs: the value that the result of the first loop of \<open>flat_to_deep\<close> holds
  for a flat key, the invariant of that loop (distinct keys without dots, collected dicts
  not empty and with distinct keys), and what the second loop makes of one entry.
\<close>

fun sub_lookup :: "('a + 'a flat) option \<Rightarrow> string \<Rightarrow> 'a option" where
  "sub_lookup (Some (Inr sub)) leaf = map_of sub leaf"
| "sub_lookup (Some (Inl x)) leaf = None"
| "sub_lookup None leaf = None"

fun term_lookup :: "('a + 'a flat) option \<Rightarrow> 'a option" where
  "term_lookup (Some (Inl x)) = Some x"
| "term_lookup (Some (Inr sub)) = None"
| "term_lookup None = None"

definition level_lookup :: "(string \<times> ('a + 'a flat)) list \<Rightarrow> string \<Rightarrow> 'a option" where
  "level_lookup res key =
     (if CHR ''.'' \<in> set key
      then sub_lookup (map_of res (fst (split_key key))) (snd (split_key key))
      else term_lookup (map_of res key))"

definition level_ok :: "(string \<times> ('a + 'a flat)) list \<Rightarrow> bool" where
  "level_ok res =
     (distinct (map fst res) \<and> (\<forall>r \<in> fst ` set res. CHR ''.'' \<notin> set r) \<and>
      (\<forall>r sub. map_of res r = Some (Inr sub) \<longrightarrow> sub \<noteq> [] \<and> distinct (map fst sub)))"

definition nest_level :: "string \<times> ('a + 'a flat) \<Rightarrow> string \<times> 'a cfg" where
  "nest_level = (\<lambda>(key, v).
     (key, case v of Inl x \<Rightarrow> Term x | Inr sub \<Rightarrow> Dict (projr (flat_to_deep sub))))"

subsection \<open>Schema expansion, entry by entry\<close>

text \<open>
  The body of the loop of \<open>add_default_args\<close> as a function of its own, for the proofs:
  \<open>add_default_args (Suc depth) reg cfg\<close> folds it over \<open>cfg\<close>
  (\<open>add_default_args_Suc\<close>).
\<close>

definition expand_entry ::
  "nat \<Rightarrow> registry \<Rightarrow> (pytype \<times> val) dict \<Rightarrow> string \<times> (pytype \<times> val) cfg
    \<Rightarrow> (pytype \<times> val) dict \<Rightarrow> error + (pytype \<times> val) dict" where
  "expand_entry depth reg cfg = (\<lambda>(key, v) res_cfg.
        case v of
          Dict d \<Rightarrow>
            (case add_default_args depth reg d of
               Inl e \<Rightarrow> Inl e
             | Inr d' \<Rightarrow> Inr (setitem key (Dict d') res_cfg))
        | Term (tp, x) \<Rightarrow>
            if endswith key ''_class'' then
              (let res_cfg = setitem key v res_cfg in
               if x = VMissing then Inr res_cfg
               else
                 case get_cfg_class reg x of
                   Inl e \<Rightarrow> Inl e
                 | Inr cls \<Rightarrow>
                     (let stem = stem_of key;
                          params = params_of (snd cls)
                      in case (if contains cfg stem then
                                 (case map_of cfg stem of
                                    Some (Dict d) \<Rightarrow> Inr (dict_update params d)
                                  | _ \<Rightarrow> Inl InvalidOverride)
                               else Inr params) of
                           Inl e \<Rightarrow> Inl e
                         | Inr params \<Rightarrow>
                             (case add_default_args depth reg params of
                                Inl e \<Rightarrow> Inl e
                              | Inr d' \<Rightarrow> Inr (setitem stem (Dict d') res_cfg))))
            else Inr (setitem key v res_cfg))"

text \<open>
  The recursive converters are unfolded on request only; \<open>eval_defs\<close> collects the
  equations that evaluate the functions of the module on a given input.
\<close>

declare asdict.simps [simp del]
declare add_default_args.simps [simp del]
declare to_dict_format.simps [simp del]
declare to_cls_format.simps [simp del]
declare to_arg_format.simps [simp del]
declare deep_to_flat.simps [simp del]

lemmas eval_defs =
  add_default_args.simps asdict.simps to_dict_format.simps to_cls_format.simps to_arg_format.simps deep_to_flat.simps
  contains_def dict_update_def get_cfg_class_def construct_def endswith_def stem_of_def
  params_of_def
  split_key_def resolve_entry_def resolve_level_def flat_to_deep.simps
  lower_char_def str2bool_def arg_as_tuple_def get_arg_parser_def is_digit_def digits_val_def
  py_int_def type_call_def get_value_def option_table_def startswith_def negative_number_def
  parse_optional_def parse_known_args_def apply_cfg_file_def parse_iteration_def
  continuing_def AList.update.simps Let_def

subsection \<open>The cases of one iteration\<close>

lemma parse_loop_iteration_error:
  "parse_iteration pk depth reg args cfg = Inl e
    \<Longrightarrow> parse_loop pk depth reg args cfg nb_unparsed unparsed = (1, Inl e)"
  by (simp add: parse_loop.simps [of pk depth reg args cfg])

lemma parse_loop_stalled:
  "parse_iteration pk depth reg args cfg = Inr (parsed_cfg, unparsed')
    \<Longrightarrow> continuing unparsed \<Longrightarrow> nb_unparsed \<le> length unparsed'
    \<Longrightarrow> parse_loop pk depth reg args cfg nb_unparsed unparsed = (1, Inl StalledResolution)"
  by (simp add: parse_loop.simps [of pk depth reg args cfg])

lemma parse_loop_nest_error:
  "parse_iteration pk depth reg args cfg = Inr (parsed_cfg, unparsed')
    \<Longrightarrow> \<not> (continuing unparsed \<and> nb_unparsed \<le> length unparsed')
    \<Longrightarrow> flat_to_deep parsed_cfg = Inl e
    \<Longrightarrow> parse_loop pk depth reg args cfg nb_unparsed unparsed = (1, Inl e)"
  by (auto simp: parse_loop.simps [of pk depth reg args cfg] Let_def)

lemma parse_loop_exit:
  "parse_iteration pk depth reg args cfg = Inr (parsed_cfg, unparsed')
    \<Longrightarrow> \<not> continuing unparsed
    \<Longrightarrow> flat_to_deep parsed_cfg = Inr cfg'
    \<Longrightarrow> parse_loop pk depth reg args cfg nb_unparsed unparsed = (1, Inr cfg')"
  by (simp add: parse_loop.simps [of pk depth reg args cfg] Let_def)

lemma parse_loop_continue:
  "parse_iteration pk depth reg args cfg = Inr (parsed_cfg, unparsed')
    \<Longrightarrow> continuing unparsed \<Longrightarrow> length unparsed' < nb_unparsed
    \<Longrightarrow> flat_to_deep parsed_cfg = Inr cfg'
    \<Longrightarrow> parse_loop pk depth reg args cfg nb_unparsed unparsed
        = (Suc (fst (parse_loop pk depth reg args cfg' (length unparsed') (Some unparsed'))),
           snd (parse_loop pk depth reg args cfg' (length unparsed') (Some unparsed')))"
  by (simp add: parse_loop.simps [of pk depth reg args cfg] Let_def
        split: prod.splits)

lemma parse_loop_cases:
  obtains (iteration_error) e where "parse_iteration pk depth reg args cfg = Inl e"
      "parse_loop pk depth reg args cfg nb_unparsed unparsed = (1, Inl e)"
  | (stalled) parsed_cfg unparsed' where
      "parse_iteration pk depth reg args cfg = Inr (parsed_cfg, unparsed')"
      "continuing unparsed" "nb_unparsed \<le> length unparsed'"
      "parse_loop pk depth reg args cfg nb_unparsed unparsed = (1, Inl StalledResolution)"
  | (nest_error) parsed_cfg unparsed' e where
      "parse_iteration pk depth reg args cfg = Inr (parsed_cfg, unparsed')"
      "\<not> (continuing unparsed \<and> nb_unparsed \<le> length unparsed')"
      "flat_to_deep parsed_cfg = Inl e"
      "parse_loop pk depth reg args cfg nb_unparsed unparsed = (1, Inl e)"
  | (exit) parsed_cfg unparsed' cfg' where
      "parse_iteration pk depth reg args cfg = Inr (parsed_cfg, unparsed')"
      "\<not> continuing unparsed" "flat_to_deep parsed_cfg = Inr cfg'"
      "parse_loop pk depth reg args cfg nb_unparsed unparsed = (1, Inr cfg')"
  | (continue) parsed_cfg unparsed' cfg' where
      "parse_iteration pk depth reg args cfg = Inr (parsed_cfg, unparsed')"
      "continuing unparsed" "length unparsed' < nb_unparsed"
      "flat_to_deep parsed_cfg = Inr cfg'"
      "parse_loop pk depth reg args cfg nb_unparsed unparsed
        = (Suc (fst (parse_loop pk depth reg args cfg' (length unparsed') (Some unparsed'))),
           snd (parse_loop pk depth reg args cfg' (length unparsed') (Some unparsed')))"
proof (cases "parse_iteration pk depth reg args cfg")
  case (Inl e)
  then show ?thesis using iteration_error parse_loop_iteration_error by blast
next
  case (Inr pu)
  obtain parsed_cfg unparsed' where pu: "parse_iteration pk depth reg args cfg = Inr (parsed_cfg, unparsed')"
    using Inr by (cases pu) auto
  show ?thesis
  proof (cases "continuing unparsed \<and> nb_unparsed \<le> length unparsed'")
    case True
    then show ?thesis using stalled [OF pu] parse_loop_stalled [OF pu] by blast
  next
    case ns: False
    show ?thesis
    proof (cases "flat_to_deep parsed_cfg")
      case (Inl e)
      then show ?thesis using nest_error [OF pu ns] parse_loop_nest_error [OF pu ns] by blast
    next
      case (Inr cfg')
      show ?thesis
      proof (cases "continuing unparsed")
        case False
        then show ?thesis using exit [OF pu _ Inr] parse_loop_exit [OF pu _ Inr] by blast
      next
        case True
        with ns have "length unparsed' < nb_unparsed" by simp
        then show ?thesis
          using continue [OF pu True _ Inr] parse_loop_continue [OF pu True _ Inr] by blast
      qed
    qed
  qed
qed

lemma parse_loop_bound:
  "fst (parse_loop pk depth reg args cfg nb_unparsed unparsed) \<le> nb_unparsed + 1"
proof (induction nb_unparsed arbitrary: cfg unparsed rule: less_induct)
  case (less nb)
  show ?case
  proof (cases rule: parse_loop_cases
      [where pk = pk and depth = depth and reg = reg and args = args and cfg = cfg
         and unparsed = unparsed and nb_unparsed = nb])
    case (continue parsed_cfg unparsed' cfg')
    from less.IH [OF continue(3)]
    have "fst (parse_loop pk depth reg args cfg' (length unparsed') (Some unparsed'))
        \<le> length unparsed' + 1" .
    with continue(3,5) show ?thesis by simp
  qed simp_all
qed


text \<open>The iterations of \<open>parse_args\<close> and the states of its loop.\<close>

lemma parse_args_run_result:
  "snd (parse_args_run pk load depth reg argv cfg args) = parse_args pk load depth reg argv cfg args"
  by (simp add: parse_args_run_def parse_args_def Let_def split: sum.splits prod.splits)

lemma parse_args_run_count:
  "fst (parse_args_run pk load depth reg argv cfg args)
     \<le> length (case args of None \<Rightarrow> argv | Some a \<Rightarrow> a) + 1"
proof -
  let ?args = "case args of None \<Rightarrow> argv | Some a \<Rightarrow> a"
  show ?thesis
  proof (cases "if contains (to_dict_format cfg) ''cfg_file''
      then apply_cfg_file pk load (to_dict_format cfg) ?args else Inr (to_dict_format cfg)")
    case (Inl e)
    then show ?thesis by (simp add: parse_args_run_def Let_def)
  next
    case (Inr c)
    have "fst (parse_loop pk depth reg ?args c (length ?args) None) \<le> length ?args + 1"
      by (rule parse_loop_bound)
    with Inr show ?thesis by (auto simp: parse_args_run_def Let_def split: prod.splits)
  qed
qed

lemma loop_state_run:
  "loop_state pk depth reg args cfg0 n = Some (cfg, nb_unparsed, unparsed)
    \<Longrightarrow> parse_loop pk depth reg args cfg0 (length args) None
        = (n + fst (parse_loop pk depth reg args cfg nb_unparsed unparsed),
           snd (parse_loop pk depth reg args cfg nb_unparsed unparsed))"
proof (induction n arbitrary: cfg nb_unparsed unparsed)
  case 0
  then show ?case by simp
next
  case (Suc n)
  from Suc.prems obtain c nb u parsed_cfg unparsed' where
    st: "loop_state pk depth reg args cfg0 n = Some (c, nb, u)"
    and it: "parse_iteration pk depth reg args c = Inr (parsed_cfg, unparsed')"
    and co: "continuing u" and le: "length unparsed' < nb"
    and fd: "flat_to_deep parsed_cfg = Inr cfg"
    and eq: "nb_unparsed = length unparsed'" "unparsed = Some unparsed'"
    by (auto split: option.splits sum.splits prod.splits if_splits)
  from parse_loop_continue [OF it co le fd] Suc.IH [OF st] eq
  show ?case by simp
qed

lemma loop_state_None:
  "loop_state pk depth reg args cfg0 n = None \<Longrightarrow> loop_state pk depth reg args cfg0 (n + k) = None"
  by (induction k) simp_all


subsection \<open>Unknown options stay unrecognised\<close>

lemma consume_unknown:
  "consume le table toks (ns, extras, seen) = Inr (ns', extras', seen')
    \<Longrightarrow> set extras \<subseteq> set extras'
      \<and> (\<forall>tok \<in> set toks. parse_optional table tok = Unknown \<longrightarrow> tok \<in> set extras')"
proof (induction toks arbitrary: ns extras seen rule: length_induct)
  case (1 toks)
  show ?case
  proof (cases toks)
    case Nil
    with "1.prems" show ?thesis by simp
  next
    case (Cons t rest)
    have ih: "consume le table r (n, e, s) = Inr (ns', extras', seen')
        \<Longrightarrow> length r < length toks
        \<Longrightarrow> set e \<subseteq> set extras'
          \<and> (\<forall>tok \<in> set r. parse_optional table tok = Unknown \<longrightarrow> tok \<in> set extras')"
      for r n e s
      using "1.IH" by blast
    show ?thesis
    proof (cases "parse_optional table t")
      case Positional
      with "1.prems" Cons have "consume le table rest (ns, extras @ [t], seen) = Inr (ns', extras', seen')"
        by simp
      from ih [OF this] Cons Positional show ?thesis by auto
    next
      case Unknown
      with "1.prems" Cons have "consume le table rest (ns, extras @ [t], seen) = Inr (ns', extras', seen')"
        by simp
      from ih [OF this] Cons show ?thesis by auto
    next
      case Ambiguous
      with "1.prems" Cons show ?thesis by simp
    next
      case (Matched a arg)
      show ?thesis
      proof (cases a)
        case None
        with "1.prems" Cons Matched show ?thesis by simp
      next
        case (Some sp)
        show ?thesis
        proof (cases arg)
          case (Some str)
          with "1.prems" Cons Matched \<open>a = Some sp\<close> obtain v where
            "consume le table rest (setitem (dest sp) v ns, extras, dest sp # seen)
               = Inr (ns', extras', seen')"
            by (auto split: sum.splits)
          from ih [OF this] Cons Matched show ?thesis by auto
        next
          case None
          with "1.prems" Cons Matched \<open>a = Some sp\<close> obtain str rest' v where
            r: "rest = str # rest'" and p: "parse_optional table str = Positional"
            and c: "consume le table rest' (setitem (dest sp) v ns, extras, dest sp # seen)
               = Inr (ns', extras', seen')"
            by (auto split: list.splits sum.splits if_splits)
          from ih [OF c] Cons r have
            "set extras \<subseteq> set extras'
              \<and> (\<forall>tok \<in> set rest'. parse_optional table tok = Unknown \<longrightarrow> tok \<in> set extras')"
            by simp
          with Cons r p Matched show ?thesis by auto
        qed
      qed
    qed
  qed
qed

lemma unknown_token_residual:
  assumes "parse_known_args le specs args = Inr (ns, u)" and "tok \<in> set args"
    and "parse_optional (option_table specs) tok = Unknown"
  shows "tok \<in> set u"
proof -
  from assms(1) obtain ns0 ns1 seen where
    "consume le (option_table specs) args (ns0, [], []) = Inr (ns1, u, seen)"
    by (auto simp: parse_known_args_def Let_def split: if_splits sum.splits prod.splits)
  from consume_unknown [OF this] assms(2,3) show ?thesis by blast
qed

lemma parse_iteration_stages:
  assumes "parse_iteration pk depth reg args cfg = Inr (parsed_cfg, unparsed')"
  obtains arg_cfg full_cfg where "to_arg_format cfg = Inr arg_cfg"
    "add_default_args depth reg arg_cfg = Inr full_cfg"
    "pk (get_arg_parser (deep_to_flat full_cfg)) args = Inr (parsed_cfg, unparsed')"
  using assms
  by (auto simp: parse_iteration_def Let_def split: sum.splits prod.splits option.splits)


lemma parse_args_loop_error:
  assumes "(if contains (to_dict_format tcfg) ''cfg_file''
            then apply_cfg_file pk load (to_dict_format tcfg) args
            else Inr (to_dict_format tcfg)) = Inr cfg0"
    and "parse_loop pk depth reg args cfg0 (length args) None = (n, Inl e)"
  shows "parse_args pk load depth reg argv tcfg (Some args) = Inl e"
  using assms by (simp add: parse_args_def)

lemma stalled_at:
  assumes "loop_state pk depth reg args cfg0 n = Some (cfg, nb_unparsed, unparsed)"
    and "parse_iteration pk depth reg args cfg = Inr (parsed_cfg, unparsed')"
    and "continuing unparsed" and "nb_unparsed \<le> length unparsed'"
  shows "parse_loop pk depth reg args cfg0 (length args) None = (Suc n, Inl StalledResolution)"
  using loop_state_run [OF assms(1)] parse_loop_stalled [OF assms(2,3,4)] by simp

lemma never_recognised:
  assumes ok: "\<And>n cfg nb unp. loop_state pk depth reg args cfg0 n = Some (cfg, nb, unp)
      \<Longrightarrow> \<exists>parsed_cfg unparsed'. parse_iteration pk depth reg args cfg = Inr (parsed_cfg, unparsed')
            \<and> unparsed' \<noteq> []
            \<and> (length unparsed' < nb \<longrightarrow> (\<exists>cfg'. flat_to_deep parsed_cfg = Inr cfg'))"
  shows "\<exists>n. parse_loop pk depth reg args cfg0 (length args) None = (Suc n, Inl StalledResolution)"
proof -
  have "loop_state pk depth reg args cfg0 n = Some (cfg, nb, unp) \<Longrightarrow> continuing unp
      \<Longrightarrow> \<exists>m. parse_loop pk depth reg args cfg0 (length args) None = (Suc m, Inl StalledResolution)"
    for n cfg nb unp
  proof (induction nb arbitrary: n cfg unp rule: less_induct)
    case (less nb)
    from ok [OF less.prems(1)] obtain parsed_cfg unparsed' where
      it: "parse_iteration pk depth reg args cfg = Inr (parsed_cfg, unparsed')"
      and ne: "unparsed' \<noteq> []"
      and fd: "length unparsed' < nb \<longrightarrow> (\<exists>cfg'. flat_to_deep parsed_cfg = Inr cfg')"
      by blast
    show ?case
    proof (cases "nb \<le> length unparsed'")
      case True
      from stalled_at [OF less.prems(1) it less.prems(2) True] show ?thesis by blast
    next
      case False
      then have lt: "length unparsed' < nb" by simp
      with fd obtain cfg' where c: "flat_to_deep parsed_cfg = Inr cfg'" by blast
      have st: "loop_state pk depth reg args cfg0 (Suc n) = Some (cfg', length unparsed', Some unparsed')"
        using less.prems it lt c by simp
      have "continuing (Some unparsed')" using ne by (simp add: continuing_def)
      from less.IH [OF lt st this] show ?thesis .
    qed
  qed
  from this [of 0 cfg0 "length args" None] show ?thesis by (simp add: continuing_def)
qed

subsection \<open>The iterations of the example\<close>

lemma it1:
  "parse_iteration (parse_known_args le) (Suc (Suc depth)) reg
      [''--backbone_class'', ''B'', ''--backbone.y'', ''5''] [(''backbone_class'', Term VMissing)]
    = Inr ([(''backbone_class'', VStr ''B'')], [''--backbone.y'', ''5''])"
  by (simp add: eval_defs)

lemma it2:
  assumes "reg ''B'' = Some [(''y'', TInt, VInt 2)]"
  shows "parse_iteration (parse_known_args le) (Suc (Suc depth)) reg
      [''--backbone_class'', ''B'', ''--backbone.y'', ''5''] [(''backbone_class'', Term (VStr ''B''))]
    = Inr ([(''backbone_class'', VStr ''B''), (''backbone.y'', VInt 5)], [])"
  using assms by (simp add: eval_defs)

lemma it3:
  assumes "reg ''B'' = Some [(''y'', TInt, VInt 2)]"
  shows "parse_iteration (parse_known_args le) (Suc (Suc depth)) reg
      [''--backbone_class'', ''B'', ''--backbone.y'', ''5'']
      [(''backbone_class'', Term (VStr ''B'')), (''backbone'', Dict [(''y'', Term (VInt 5))])]
    = Inr ([(''backbone_class'', VStr ''B''), (''backbone.y'', VInt 5)], [])"
  using assms by (simp add: eval_defs)

lemma ftd1: "flat_to_deep [(''backbone_class'', VStr ''B'')] = Inr [(''backbone_class'', Term (VStr ''B''))]"
  by (simp add: eval_defs)

lemma ftd2: "flat_to_deep [(''backbone_class'', VStr ''B''), (''backbone.y'', VInt 5)]
   = Inr [(''backbone_class'', Term (VStr ''B'')), (''backbone'', Dict [(''y'', Term (VInt 5))])]"
  by (simp add: eval_defs)

lemma cls3:
  assumes "reg ''B'' = Some [(''y'', TInt, VInt 2)]"
  shows "to_cls_format reg [(''backbone_class'', Term (VStr ''B'')), (''backbone'', Dict [(''y'', Term (VInt 5))])]
   = Inr [(''backbone_class'', TVal (VStr ''B'')),
           (''backbone'', TInst ''B'' [(''y'', TVal (VInt 5))])]"
  using assms by (simp add: eval_defs)

subsection \<open>What schema expansion keeps\<close>

lemma add_default_args_Suc:
  "add_default_args (Suc depth) reg cfg = foldM (expand_entry depth reg cfg) cfg []"
  by (simp add: expand_entry_def add_default_args.simps)

lemma endswith_stem: "endswith key ''_class'' \<Longrightarrow> key = stem_of key @ ''_class''"
  unfolding stem_of_def by (metis append_take_drop_id endswith_def)

lemma endswith_append [simp]: "endswith (k @ suf) suf"
  by (simp add: endswith_def)

text \<open>The three outcomes of one entry.\<close>

lemma expand_entry_cases:
  assumes "expand_entry depth reg cfg (key, v) acc = Inr acc'"
  obtains (nested) d d' where "v = Dict d" "add_default_args depth reg d = Inr d'"
      "acc' = setitem key (Dict d') acc"
  | (plain) t where "v = Term t" "acc' = setitem key v acc"
      "\<not> endswith key ''_class'' \<or> snd t = VMissing"
  | (selector) tp x stem cls params d' where "v = Term (tp, x)" "key = stem @ ''_class''"
      "x \<noteq> VMissing" "get_cfg_class reg x = Inr cls"
      "(if contains cfg stem then
          (case map_of cfg stem of
             Some (Dict d) \<Rightarrow> Inr (dict_update (params_of (snd cls)) d)
           | _ \<Rightarrow> Inl InvalidOverride)
        else Inr (params_of (snd cls))) = Inr params"
      "add_default_args depth reg params = Inr d'"
      "acc' = setitem stem (Dict d') (setitem key v acc)"
proof (cases v)
  case (Dict d)
  with assms show ?thesis
    using nested by (auto simp: expand_entry_def split: sum.splits)
next
  case (Term t)
  obtain tp x where t: "t = (tp, x)" by (cases t)
  show ?thesis
  proof (cases "endswith key ''_class'' \<and> x \<noteq> VMissing")
    case False
    with assms Term t show ?thesis
      using plain [of t] by (auto simp: expand_entry_def Let_def split: if_splits)
  next
    case True
    then have k: "key = stem_of key @ ''_class''"
      using endswith_stem by blast
    from assms Term t True obtain cls params d' where
      "get_cfg_class reg x = Inr cls"
      "(if contains cfg (stem_of key) then
          (case map_of cfg (stem_of key) of
             Some (Dict d) \<Rightarrow> Inr (dict_update (params_of (snd cls)) d)
           | _ \<Rightarrow> Inl InvalidOverride)
        else Inr (params_of (snd cls))) = Inr params"
      "add_default_args depth reg params = Inr d'"
      "acc' = setitem (stem_of key) (Dict d') (setitem key v acc)"
      by (auto simp: expand_entry_def Let_def split: sum.splits)
    with Term t True k show ?thesis
      using selector [of tp x "stem_of key" cls params d'] by simp
  qed
qed

lemma expand_entry_other:
  assumes "expand_entry depth reg cfg (key, v) acc = Inr acc'" "k \<noteq> key" "key \<noteq> k @ ''_class''"
  shows "map_of acc' k = map_of acc k"
  using assms(1)
proof (cases rule: expand_entry_cases)
  case (nested d d')
  with assms(2) show ?thesis by (simp add: update_conv')
next
  case (plain t)
  with assms(2) show ?thesis by (simp add: update_conv')
next
  case (selector tp x stem cls params d')
  with assms(2,3) show ?thesis by (simp add: update_conv')
qed

lemma expand_entry_selector_of_terminal:
  assumes "expand_entry depth reg cfg (k @ ''_class'', v) acc = Inr acc'"
    and "map_of cfg k = Some (Term t)"
  shows "map_of acc' k = map_of acc k"
  using assms(1)
proof (cases rule: expand_entry_cases)
  case (nested d d')
  then show ?thesis by (simp add: update_conv')
next
  case (plain t)
  then show ?thesis by (simp add: update_conv')
next
  case (selector tp x stem cls params d')
  from selector(2) have "stem = k" by simp
  with selector(5) assms(2) show ?thesis by (simp add: contains_def)
qed

lemma expand_entry_terminal:
  assumes "expand_entry depth reg cfg (k, Term t) acc = Inr acc'"
  shows "map_of acc' k = Some (Term t)"
  using assms
proof (cases rule: expand_entry_cases)
  case (selector tp x stem cls params d')
  then have "stem \<noteq> k" by auto
  with selector show ?thesis by (simp add: update_conv')
qed (simp_all add: update_conv')

lemma expand_terminal_kept:
  assumes "foldM (expand_entry depth reg cfg) xs acc = Inr res"
    and "map_of cfg k = Some (Term t)" and "k \<notin> fst ` set xs"
  shows "map_of res k = map_of acc k"
  using assms
proof (induction xs arbitrary: acc)
  case Nil
  then show ?case by simp
next
  case (Cons p xs)
  obtain key v where p: "p = (key, v)" by (cases p)
  from Cons.prems(1) obtain acc1 where s: "expand_entry depth reg cfg (key, v) acc = Inr acc1"
    and r: "foldM (expand_entry depth reg cfg) xs acc1 = Inr res"
    by (auto simp: p split: sum.splits)
  from Cons.prems(3) p have ne: "k \<noteq> key" "k \<notin> fst ` set xs" by auto
  have "map_of acc1 k = map_of acc k"
  proof (cases "key = k @ ''_class''")
    case True
    with s Cons.prems(2) show ?thesis using expand_entry_selector_of_terminal by blast
  next
    case False
    with s ne(1) show ?thesis using expand_entry_other by blast
  qed
  with Cons.IH [OF r Cons.prems(2) ne(2)] show ?case by simp
qed

lemma expand_terminal_found:
  assumes "foldM (expand_entry depth reg cfg) xs acc = Inr res"
    and "distinct (map fst xs)" and "(k, Term t) \<in> set xs" and "map_of cfg k = Some (Term t)"
  shows "map_of res k = Some (Term t)"
  using assms
proof (induction xs arbitrary: acc)
  case Nil
  then show ?case by simp
next
  case (Cons p xs)
  obtain key v where p: "p = (key, v)" by (cases p)
  from Cons.prems(1) obtain acc1 where s: "expand_entry depth reg cfg (key, v) acc = Inr acc1"
    and r: "foldM (expand_entry depth reg cfg) xs acc1 = Inr res"
    by (auto simp: p split: sum.splits)
  show ?case
  proof (cases "(key, v) = (k, Term t)")
    case True
    with Cons.prems(2) p have "k \<notin> fst ` set xs" by auto
    from expand_terminal_kept [OF r Cons.prems(4) this] s True
    show ?thesis using expand_entry_terminal by auto
  next
    case False
    with Cons.prems(3) p have "(k, Term t) \<in> set xs" by auto
    with Cons.IH [OF r _ this Cons.prems(4)] Cons.prems(2) show ?thesis by simp
  qed
qed

text \<open>A terminal of the configuration is a terminal of its expansion, with the same value.\<close>

lemma add_default_args_terminal:
  assumes "add_default_args depth reg cfg = Inr res" and "distinct (map fst cfg)"
    and "map_of cfg k = Some (Term t)"
  shows "map_of res k = Some (Term t)"
proof (cases depth)
  case 0
  with assms(1) show ?thesis by (simp add: add_default_args.simps)
next
  case (Suc n)
  from assms(3) have "(k, Term t) \<in> set cfg" by (rule map_of_SomeD)
  with assms Suc show ?thesis
    using expand_terminal_found [of n reg cfg cfg "[]" res k t]
    by (simp add: add_default_args_Suc)
qed

lemma fold_setitem_other:
  "k \<notin> fst ` set d \<Longrightarrow> map_of (fold (\<lambda>(k, v). setitem k v) d p) k = map_of p k"
  by (induction d arbitrary: p) (auto simp: update_conv')

lemma dict_update_lookup:
  "distinct (map fst d) \<Longrightarrow> map_of d k = Some v \<Longrightarrow> map_of (dict_update p d) k = Some v"
  unfolding dict_update_def
proof (induction d arbitrary: p)
  case Nil
  then show ?case by simp
next
  case (Cons e d)
  obtain k' v' where e: "e = (k', v')" by (cases e)
  show ?case
  proof (cases "k' = k")
    case True
    with Cons.prems e have v: "v' = v" and "k \<notin> fst ` set d" by auto
    then have "map_of (fold (\<lambda>(k, v). setitem k v) d (setitem k v p)) k = map_of (setitem k v p) k"
      using fold_setitem_other by fast
    with True e v show ?thesis by (simp add: update_conv')
  next
    case False
    with Cons.prems e have "map_of d k = Some v" "distinct (map fst d)" by auto
    with Cons.IH e show ?thesis by simp
  qed
qed

lemma dict_update_distinct:
  "distinct (map fst p) \<Longrightarrow> distinct (map fst (dict_update p d))"
  unfolding dict_update_def
  by (induction d arbitrary: p) (auto simp: distinct_update)

lemma params_of_distinct: "distinct (map fst (params_of flds))"
proof -
  have "distinct (map fst acc) \<Longrightarrow>
      distinct (map fst (fold (\<lambda>(name, tp, dflt). setitem name (Term (tp, dflt))) flds acc))"
    for acc :: "(pytype \<times> val) dict"
    by (induction flds arbitrary: acc) (auto simp: distinct_update)
  from this [of "[]"] show ?thesis by (simp add: params_of_def)
qed

text \<open>The invariant of override precedence: the stem holds a dict in which \<open>f\<close> is \<open>t\<close>.\<close>

lemma expand_stem_override:
  assumes "foldM (expand_entry depth reg cfg) xs acc = Inr res"
    and "set xs \<subseteq> set cfg" and "distinct (map fst cfg)"
    and "map_of cfg stem = Some (Dict d)" and "distinct (map fst d)"
    and "map_of d f = Some (Term t)"
    and "(\<exists>d'. map_of acc stem = Some (Dict d') \<and> map_of d' f = Some (Term t))
          \<or> (stem, Dict d) \<in> set xs"
  shows "\<exists>d'. map_of res stem = Some (Dict d') \<and> map_of d' f = Some (Term t)"
  using assms(1,2,7)
proof (induction xs arbitrary: acc)
  case Nil
  then show ?case by simp
next
  case (Cons p xs)
  obtain key v where p: "p = (key, v)" by (cases p)
  from Cons.prems(1) obtain acc1 where s: "expand_entry depth reg cfg (key, v) acc = Inr acc1"
    and r: "foldM (expand_entry depth reg cfg) xs acc1 = Inr res"
    by (auto simp: p split: sum.splits)
  from Cons.prems(2) p have mem: "(key, v) \<in> set cfg" and sub: "set xs \<subseteq> set cfg" by auto
  from mem assms(3) have look: "map_of cfg key = Some v" by simp
  have "(\<exists>d'. map_of acc1 stem = Some (Dict d') \<and> map_of d' f = Some (Term t))
          \<or> (stem, Dict d) \<in> set xs"
    using s
  proof (cases rule: expand_entry_cases)
    case (nested d0 d')
    show ?thesis
    proof (cases "key = stem")
      case True
      with look assms(4) nested(1) have "d0 = d" by simp
      with nested(2) assms(5,6) have "map_of d' f = Some (Term t)"
        using add_default_args_terminal by blast
      with nested(3) True show ?thesis by (simp add: update_conv')
    next
      case False
      with nested(3) Cons.prems(3) p show ?thesis by (auto simp: update_conv')
    qed
  next
    case (plain t')
    with look assms(4) have "key \<noteq> stem" by auto
    with plain(2) Cons.prems(3) p show ?thesis by (auto simp: update_conv')
  next
    case (selector tp x stem' cls params d')
    from selector(1) look assms(4) have ks: "key \<noteq> stem" by auto
    show ?thesis
    proof (cases "stem' = stem")
      case True
      with selector(5) assms(4) have "params = dict_update (params_of (snd cls)) d"
        by (simp add: contains_def)
      then have "map_of params f = Some (Term t)" "distinct (map fst params)"
        using dict_update_lookup [OF assms(5,6)] dict_update_distinct [OF params_of_distinct]
        by blast+
      with selector(6) have "map_of d' f = Some (Term t)"
        using add_default_args_terminal by blast
      with selector(7) True show ?thesis by (simp add: update_conv')
    next
      case False
      with selector(7) ks Cons.prems(3) p show ?thesis by (auto simp: update_conv')
    qed
  qed
  from Cons.IH [OF r sub this] show ?case .
qed

subsection \<open>Flattening and nesting back\<close>

lemma wf_dictD:
  "wf_dict cfg \<Longrightarrow> distinct (map fst cfg)"
  "wf_dict cfg \<Longrightarrow> (k, Dict d) \<in> set cfg \<Longrightarrow> wf_dict d"
  by (auto simp: wf_dict.simps [of cfg] list_all_iff)

lemma dotlessD:
  "dotless cfg \<Longrightarrow> (k, v) \<in> set cfg \<Longrightarrow> CHR ''.'' \<notin> set k"
  "dotless cfg \<Longrightarrow> (k, Dict d) \<in> set cfg \<Longrightarrow> dotless d"
  by (auto simp: dotless.simps [of cfg] list_all_iff)

lemma filledD:
  "filled cfg \<Longrightarrow> (k, Dict d) \<in> set cfg \<Longrightarrow> d \<noteq> []"
  "filled cfg \<Longrightarrow> (k, Dict d) \<in> set cfg \<Longrightarrow> filled d"
  by (auto simp: filled.simps [of cfg] list_all_iff)

lemma setitem_fresh: "k \<notin> fst ` set al \<Longrightarrow> setitem k v al = al @ [(k, v)]"
  by (induction al) auto

lemma fold_setitem_fresh:
  "distinct (map fst xs) \<Longrightarrow> fst ` set xs \<inter> fst ` set acc = {}
    \<Longrightarrow> fold (\<lambda>(k, v). setitem k v) xs acc = acc @ xs"
proof (induction xs arbitrary: acc)
  case Nil
  then show ?case by simp
next
  case (Cons p xs)
  obtain k v where p: "p = (k, v)" by (cases p)
  from Cons.prems p have fresh: "k \<notin> fst ` set acc" by auto
  from Cons.prems p have "fst ` set xs \<inter> fst ` set (acc @ [(k, v)]) = {}" by auto
  with Cons.IH [of "acc @ [(k, v)]"] Cons.prems p fresh show ?case
    by (simp add: setitem_fresh)
qed

lemma takeWhile_dot:
  "CHR ''.'' \<notin> set k \<Longrightarrow> takeWhile (\<lambda>c. c \<noteq> CHR ''.'') (k @ CHR ''.'' # s) = k"
  by (induction k) auto

lemma dropWhile_dot:
  "CHR ''.'' \<notin> set k \<Longrightarrow> dropWhile (\<lambda>c. c \<noteq> CHR ''.'') (k @ CHR ''.'' # s) = CHR ''.'' # s"
  by (induction k) auto

lemma root_of_dotless: "CHR ''.'' \<notin> set k \<Longrightarrow> root_of k = k"
  by (auto simp: root_of_def takeWhile_eq_all_conv)

lemma root_of_dotted: "CHR ''.'' \<notin> set k \<Longrightarrow> root_of (k @ ''.'' @ s) = k"
  by (simp add: root_of_def takeWhile_dot)

lemma split_key_dotted: "CHR ''.'' \<notin> set k \<Longrightarrow> split_key (k @ ''.'' @ s) = (k, s)"
  by (simp add: split_key_def takeWhile_dot dropWhile_dot)

lemma flat_entry_roots:
  "CHR ''.'' \<notin> set k \<Longrightarrow> root_of ` fst ` set (flat_entry (k, v)) \<subseteq> {k}"
  using root_of_dotted [of k] by (cases v) (auto simp: flat_entry_def root_of_dotless)

lemma prefixed_keys:
  "map fst (map (\<lambda>(sub_key, sub_val). (k @ ''.'' @ sub_key, sub_val)) ys)
    = map (\<lambda>s. k @ ''.'' @ s) (map fst ys)"
  by (induction ys) auto

lemma prefixed_distinct:
  "distinct (map fst ys)
    \<Longrightarrow> distinct (map fst (map (\<lambda>(sub_key, sub_val). (k @ ''.'' @ sub_key, sub_val)) ys))"
  unfolding prefixed_keys by (subst distinct_map) (simp add: inj_on_def)

lemma flat_entry_distinct:
  assumes "\<And>d. v = Dict d \<Longrightarrow> distinct (map fst (deep_to_flat d))"
  shows "distinct (map fst (flat_entry (k, v)))"
proof (cases v)
  case (Term x)
  then show ?thesis by (simp add: flat_entry_def)
next
  case (Dict d)
  with prefixed_distinct [OF assms [OF Dict], of k] show ?thesis
    by (simp add: flat_entry_def)
qed

text \<open>Flattening a well-formed configuration without dots stores every key once.\<close>

lemma flatten_step:
  assumes "CHR ''.'' \<notin> set k" and "k \<notin> root_of ` fst ` set acc"
    and "\<And>d. v = Dict d \<Longrightarrow> distinct (map fst (deep_to_flat d))"
  shows "(case v of
            Dict d \<Rightarrow>
              fold (\<lambda>(sub_key, sub_val). setitem (k @ ''.'' @ sub_key) sub_val) (deep_to_flat d) acc
          | Term x \<Rightarrow> setitem k x acc) = acc @ flat_entry (k, v)"
proof (cases v)
  case (Term x)
  have "k \<notin> fst ` set acc"
  proof
    assume "k \<in> fst ` set acc"
    then have "root_of k \<in> root_of ` fst ` set acc" by blast
    with assms(1,2) show False by (simp add: root_of_dotless)
  qed
  with Term show ?thesis by (simp add: flat_entry_def setitem_fresh)
next
  case (Dict d)
  let ?ys = "map (\<lambda>(sub_key, sub_val). (k @ ''.'' @ sub_key, sub_val)) (deep_to_flat d)"
  have f: "fold (\<lambda>(sub_key, sub_val). setitem (k @ ''.'' @ sub_key) sub_val) zs acc
      = fold (\<lambda>(k, v). setitem k v) (map (\<lambda>(sub_key, sub_val). (k @ ''.'' @ sub_key, sub_val)) zs) acc"
    for zs :: "'a flat"
    by (induction zs arbitrary: acc) auto
  have d: "distinct (map fst ?ys)" using prefixed_distinct [OF assms(3) [OF Dict]] .
  have "fst ` set ?ys \<inter> fst ` set acc = {}"
  proof (rule ccontr)
    assume "fst ` set ?ys \<inter> fst ` set acc \<noteq> {}"
    then obtain key where k1: "key \<in> fst ` set ?ys" and k2: "key \<in> fst ` set acc" by blast
    from k1 obtain s where "key = k @ ''.'' @ s" by auto
    with root_of_dotted [OF assms(1), of s] have "root_of key = k" by simp
    with k2 assms(2) show False by blast
  qed
  then have "fold (\<lambda>(k, v). setitem k v) ?ys acc = acc @ ?ys"
    using fold_setitem_fresh [OF d] by blast
  then have "fold (\<lambda>(sub_key, sub_val). setitem (k @ ''.'' @ sub_key) sub_val) (deep_to_flat d) acc
      = acc @ ?ys"
    by (simp only: f)
  with Dict show ?thesis by (simp add: flat_entry_def)
qed

lemma deep_to_flat_fold: "deep_to_flat cfg = fold flatten_entry cfg []"
  by (simp add: deep_to_flat.simps [of cfg] flatten_entry_def)

lemma flatten_fold:
  assumes "distinct (map fst xs)"
    and "\<And>k v. (k, v) \<in> set xs \<Longrightarrow> CHR ''.'' \<notin> set k"
    and "\<And>k d. (k, Dict d) \<in> set xs \<Longrightarrow> distinct (map fst (deep_to_flat d))"
    and "fst ` set xs \<inter> root_of ` fst ` set acc = {}"
  shows "fold flatten_entry xs acc = acc @ concat (map flat_entry xs)"
  using assms
proof (induction xs arbitrary: acc)
  case Nil
  then show ?case by simp
next
  case (Cons p xs)
  obtain k v where p: "p = (k, v)" by (cases p)
  have nd: "CHR ''.'' \<notin> set k" using Cons.prems(2) p by auto
  have fresh: "k \<notin> root_of ` fst ` set acc" using Cons.prems(4) p by auto
  have dd: "\<And>d. v = Dict d \<Longrightarrow> distinct (map fst (deep_to_flat d))"
    using Cons.prems(3) p by auto
  have step: "flatten_entry (k, v) acc = acc @ flat_entry (k, v)"
    using flatten_step [OF nd fresh dd] by (simp add: flatten_entry_def)
  have disj: "fst ` set xs \<inter> root_of ` fst ` set (acc @ flat_entry (k, v)) = {}"
  proof -
    have "k \<notin> fst ` set xs" using Cons.prems(1) p by auto
    with flat_entry_roots [OF nd, of v]
    have "fst ` set xs \<inter> root_of ` fst ` set (flat_entry (k, v)) = {}" by blast
    moreover have "fst ` set xs \<inter> root_of ` fst ` set acc = {}"
      using Cons.prems(4) by auto
    ultimately show ?thesis by (simp add: image_Un Int_Un_distrib)
  qed
  have d: "distinct (map fst xs)" using Cons.prems(1) by simp
  have "fold flatten_entry xs (acc @ flat_entry (k, v))
      = (acc @ flat_entry (k, v)) @ concat (map flat_entry xs)"
    using Cons.IH [OF d _ _ disj] Cons.prems(2,3) by (meson list.set_intros(2))
  with step p show ?case by simp
qed

lemma concat_flat_distinct:
  assumes "distinct (map fst xs)"
    and "\<And>k v. (k, v) \<in> set xs \<Longrightarrow> CHR ''.'' \<notin> set k"
    and "\<And>k d. (k, Dict d) \<in> set xs \<Longrightarrow> distinct (map fst (deep_to_flat d))"
  shows "distinct (map fst (concat (map flat_entry xs)))"
  using assms
proof (induction xs)
  case Nil
  then show ?case by simp
next
  case (Cons p xs)
  obtain k v where p: "p = (k, v)" by (cases p)
  have nd: "CHR ''.'' \<notin> set k" using Cons.prems(2) p by auto
  have d1: "distinct (map fst (flat_entry (k, v)))"
    using flat_entry_distinct [of v k] Cons.prems(3) p by auto
  have d2: "distinct (map fst (concat (map flat_entry xs)))"
    using Cons.IH Cons.prems by auto
  have "fst ` set (flat_entry (k, v)) \<inter> fst ` set (concat (map flat_entry xs)) = {}"
  proof (rule ccontr)
    assume "fst ` set (flat_entry (k, v)) \<inter> fst ` set (concat (map flat_entry xs)) \<noteq> {}"
    then obtain key where k1: "key \<in> fst ` set (flat_entry (k, v))"
      and k2: "key \<in> fst ` set (concat (map flat_entry xs))" by blast
    from k1 flat_entry_roots [OF nd, of v] have r1: "root_of key = k" by auto
    from k2 obtain k' v' where m: "(k', v') \<in> set xs" and "key \<in> fst ` set (flat_entry (k', v'))"
      by auto
    moreover from m Cons.prems(2) have "CHR ''.'' \<notin> set k'" by auto
    ultimately have "root_of key = k'" using flat_entry_roots [of k' v'] by auto
    with r1 m Cons.prems(1) p show False by force
  qed
  with d1 d2 p show ?case by simp
qed

lemma deep_to_flat_concat:
  "wf_dict cfg \<Longrightarrow> dotless cfg
    \<Longrightarrow> deep_to_flat cfg = concat (map flat_entry cfg) \<and> distinct (map fst (deep_to_flat cfg))"
proof (induction cfg rule: deep_to_flat.induct)
  case (1 cfg)
  have sub: "distinct (map fst (deep_to_flat d))" if "(k, Dict d) \<in> set cfg" for k d
    using "1.IH" [OF that refl refl] wf_dictD(2) [OF "1.prems"(1) that]
      dotlessD(2) [OF "1.prems"(2) that] by blast
  have nd: "CHR ''.'' \<notin> set k" if "(k, v) \<in> set cfg" for k v
    using dotlessD(1) [OF "1.prems"(2) that] .
  have eq: "deep_to_flat cfg = concat (map flat_entry cfg)"
    using flatten_fold [of cfg "[]", OF wf_dictD(1) [OF "1.prems"(1)] nd sub]
    by (simp add: deep_to_flat_fold)
  with concat_flat_distinct [OF wf_dictD(1) [OF "1.prems"(1)] nd sub] show ?case by simp
qed

lemma deep_to_flat_nonempty:
  "wf_dict cfg \<Longrightarrow> dotless cfg \<Longrightarrow> filled cfg \<Longrightarrow> cfg \<noteq> [] \<Longrightarrow> deep_to_flat cfg \<noteq> []"
proof (induction cfg rule: deep_to_flat.induct)
  case (1 cfg)
  from "1.prems"(4) obtain k v rest where c: "cfg = (k, v) # rest" by (cases cfg) auto
  have "flat_entry (k, v) \<noteq> []"
  proof (cases v)
    case (Term x)
    then show ?thesis by (simp add: flat_entry_def)
  next
    case (Dict d)
    with c have m: "(k, Dict d) \<in> set cfg" by simp
    from "1.IH" [OF m refl refl wf_dictD(2) [OF "1.prems"(1) m] dotlessD(2) [OF "1.prems"(2) m]
        filledD(2) [OF "1.prems"(3) m] filledD(1) [OF "1.prems"(3) m]]
    show ?thesis using Dict by (simp add: flat_entry_def)
  qed
  with c deep_to_flat_concat [OF "1.prems"(1,2)] show ?case by simp
qed

text \<open>The first loop of \<open>flat_to_deep\<close> on a flattened configuration.\<close>

lemma map_of_snoc: "k \<notin> fst ` set acc \<Longrightarrow> map_of (acc @ [(k, s)]) k = Some s"
  by (induction acc) auto

lemma setitem_snoc: "k \<notin> fst ` set acc \<Longrightarrow> setitem k v (acc @ [(k, s)]) = acc @ [(k, v)]"
  by (induction acc) auto

lemma resolve_prefixed:
  assumes "CHR ''.'' \<notin> set k" and "k \<notin> fst ` set acc"
  shows "foldM resolve_entry (map (\<lambda>(sub_key, sub_val). (k @ ''.'' @ sub_key, sub_val)) ys)
           (acc @ [(k, Inr sub)])
         = Inr (acc @ [(k, Inr (fold (\<lambda>(k, v). setitem k v) ys sub))])"
proof (induction ys arbitrary: sub)
  case Nil
  then show ?case by simp
next
  case (Cons p ys)
  obtain sk sv where p: "p = (sk, sv)" by (cases p)
  have dot: "CHR ''.'' \<in> set (k @ ''.'' @ sk)" by simp
  have "resolve_entry (k @ ''.'' @ sk, sv) (acc @ [(k, Inr sub)])
      = Inr (acc @ [(k, Inr (setitem sk sv sub))])"
    unfolding resolve_entry_def
    using dot split_key_dotted [OF assms(1), of sk] map_of_snoc [OF assms(2), of "Inr sub"]
      setitem_snoc [OF assms(2)]
    by (simp add: contains_def del: append.simps)
  with Cons.IH [of "setitem sk sv sub"] p show ?case by simp
qed

lemma resolve_flat_entry:
  assumes "CHR ''.'' \<notin> set k" and "k \<notin> fst ` set acc"
    and "\<And>d. v = Dict d \<Longrightarrow> deep_to_flat d \<noteq> [] \<and> distinct (map fst (deep_to_flat d))"
  shows "foldM resolve_entry (flat_entry (k, v)) acc = Inr (acc @ [level_entry (k, v)])"
proof (cases v)
  case (Term x)
  with assms(1,2) show ?thesis
    by (simp add: flat_entry_def level_entry_def resolve_entry_def setitem_fresh)
next
  case (Dict d)
  from assms(3) [OF Dict] obtain sk sv ys where ys: "deep_to_flat d = (sk, sv) # ys"
    and dist: "distinct (map fst (deep_to_flat d))"
    by (cases "deep_to_flat d") auto
  have dot: "CHR ''.'' \<in> set (k @ ''.'' @ sk)" by simp
  have none: "map_of acc k = None" using assms(2) by (simp add: map_of_eq_None_iff)
  have first: "resolve_entry (k @ ''.'' @ sk, sv) acc = Inr (acc @ [(k, Inr [(sk, sv)])])"
    unfolding resolve_entry_def
    using dot split_key_dotted [OF assms(1), of sk] none setitem_fresh [OF assms(2)]
      map_of_snoc [OF assms(2), of "Inr []"] setitem_snoc [OF assms(2)]
    by (simp add: contains_def del: append.simps)
  have "fold (\<lambda>(k, v). setitem k v) ys [(sk, sv)] = [(sk, sv)] @ ys"
    using dist ys by (intro fold_setitem_fresh) auto
  with resolve_prefixed [OF assms(1,2), of ys "[(sk, sv)]"]
  have rest: "foldM resolve_entry (map (\<lambda>(sub_key, sub_val). (k @ ''.'' @ sub_key, sub_val)) ys)
           (acc @ [(k, Inr [(sk, sv)])]) = Inr (acc @ [(k, Inr (deep_to_flat d))])"
    using ys by simp
  have "foldM resolve_entry (flat_entry (k, v)) acc
      = foldM resolve_entry (map (\<lambda>(sub_key, sub_val). (k @ ''.'' @ sub_key, sub_val)) ys)
          (acc @ [(k, Inr [(sk, sv)])])"
    using Dict ys first by (simp add: flat_entry_def)
  with rest Dict show ?thesis by (simp add: level_entry_def)
qed

lemma resolve_concat:
  assumes "distinct (map fst xs)"
    and "\<And>k v. (k, v) \<in> set xs \<Longrightarrow> CHR ''.'' \<notin> set k"
    and "\<And>k d. (k, Dict d) \<in> set xs
          \<Longrightarrow> deep_to_flat d \<noteq> [] \<and> distinct (map fst (deep_to_flat d))"
    and "fst ` set xs \<inter> fst ` set acc = {}"
  shows "foldM resolve_entry (concat (map flat_entry xs)) acc = Inr (acc @ map level_entry xs)"
  using assms
proof (induction xs arbitrary: acc)
  case Nil
  then show ?case by simp
next
  case (Cons p xs)
  obtain k v where p: "p = (k, v)" by (cases p)
  have nd: "CHR ''.'' \<notin> set k" using Cons.prems(2) p by auto
  have fresh: "k \<notin> fst ` set acc" using Cons.prems(4) p by auto
  have dd: "\<And>d. v = Dict d \<Longrightarrow> deep_to_flat d \<noteq> [] \<and> distinct (map fst (deep_to_flat d))"
    using Cons.prems(3) p by auto
  have step: "foldM resolve_entry (flat_entry (k, v)) acc = Inr (acc @ [level_entry (k, v)])"
    using resolve_flat_entry [OF nd fresh dd] .
  have key: "fst (level_entry (k, v)) = k" by (cases v) (simp_all add: level_entry_def)
  have disj: "fst ` set xs \<inter> fst ` set (acc @ [level_entry (k, v)]) = {}"
    using Cons.prems(1,4) p key by auto
  have d: "distinct (map fst xs)" using Cons.prems(1) by simp
  have "foldM resolve_entry (concat (map flat_entry xs)) (acc @ [level_entry (k, v)])
      = Inr ((acc @ [level_entry (k, v)]) @ map level_entry xs)"
    using Cons.IH [OF d _ _ disj] Cons.prems(2,3) by (meson list.set_intros(2))
  with step p show ?case by (simp add: foldM_append)
qed

text \<open>The second loop of \<open>flat_to_deep\<close>, when every collected dict nests back.\<close>

lemma flat_to_deep_unfold:
  "flat_to_deep cfg =
     (case resolve_level cfg of Inl e \<Rightarrow> Inl e | Inr res_cfg \<Rightarrow> foldM nest_entry res_cfg [])"
  unfolding nest_entry_def by (rule flat_to_deep.simps)

lemma nest_levels:
  assumes "\<And>k d. (k, Dict d) \<in> set xs \<Longrightarrow> flat_to_deep (deep_to_flat d) = Inr d"
  shows "foldM nest_entry (map level_entry xs) acc = Inr (acc @ xs)"
  using assms
proof (induction xs arbitrary: acc)
  case Nil
  then show ?case by simp
next
  case (Cons p xs)
  obtain k v where p: "p = (k, v)" by (cases p)
  have ih: "foldM nest_entry (map level_entry xs) acc' = Inr (acc' @ xs)" for acc'
    using Cons.prems by (intro Cons.IH) auto
  show ?case
  proof (cases v)
    case (Term x)
    with ih [of "acc @ [(k, Term x)]"] p show ?thesis
      by (simp add: level_entry_def nest_entry_def)
  next
    case (Dict d)
    from Cons.prems [of k d] p Dict have "flat_to_deep (deep_to_flat d) = Inr d" by simp
    with ih [of "acc @ [(k, Dict d)]"] p Dict show ?thesis
      by (simp add: level_entry_def nest_entry_def)
  qed
qed

lemma deep_to_flat_distinct: "distinct (map fst (deep_to_flat cfg))"
proof -
  have inner: "distinct (map fst acc) \<Longrightarrow>
      distinct (map fst (fold (\<lambda>(sub_key, sub_val). setitem (key @ ''.'' @ sub_key) sub_val) ys acc))"
    for key and ys acc :: "'a flat"
    by (induction ys arbitrary: acc) (auto simp: distinct_update)
  have step: "distinct (map fst acc) \<Longrightarrow> distinct (map fst (fold flatten_entry xs acc))"
    for xs :: "'a dict" and acc
  proof (induction xs arbitrary: acc)
    case Nil
    then show ?case by simp
  next
    case (Cons p xs)
    obtain k v where p: "p = (k, v)" by (cases p)
    have "distinct (map fst (flatten_entry (k, v) acc))"
      using Cons.prems inner [of acc k] by (cases v) (simp_all add: flatten_entry_def distinct_update)
    with Cons.IH p show ?case by simp
  qed
  have "distinct (map fst (fold flatten_entry cfg []))" by (rule step) simp
  then show ?thesis by (simp only: deep_to_flat_fold)
qed

lemma dict_update_other:
  "map_of d k = None \<Longrightarrow> map_of (dict_update p d) k = map_of p k"
proof -
  assume "map_of d k = None"
  then have "k \<notin> fst ` set d" by (simp add: map_of_eq_None_iff)
  then show ?thesis unfolding dict_update_def by (rule fold_setitem_other)
qed

subsection \<open>Nesting a flat configuration without conflicts\<close>

lemma prefix_freeD:
  "prefix_free p \<Longrightarrow> k \<in> fst ` set p \<Longrightarrow> k' \<in> fst ` set p \<Longrightarrow> \<not> startswith k' (k @ ''.'')"
  by (auto simp: prefix_free_def list_all_iff)

lemma prefix_freeI:
  "(\<And>k k'. k \<in> fst ` set p \<Longrightarrow> k' \<in> fst ` set p \<Longrightarrow> \<not> startswith k' (k @ ''.''))
    \<Longrightarrow> prefix_free p"
  by (auto simp: prefix_free_def list_all_iff)

lemma split_key_join:
  assumes "CHR ''.'' \<in> set key"
  shows "key = fst (split_key key) @ ''.'' @ snd (split_key key)"
    and "CHR ''.'' \<notin> set (fst (split_key key))"
proof -
  let ?P = "\<lambda>c. c \<noteq> CHR ''.''"
  from assms have ne: "dropWhile ?P key \<noteq> []" by (simp add: dropWhile_eq_Nil_conv)
  then have "hd (dropWhile ?P key) = CHR ''.''" using hd_dropWhile [of ?P key] by simp
  with ne have "dropWhile ?P key = CHR ''.'' # tl (dropWhile ?P key)"
    by (cases "dropWhile ?P key") auto
  then have "takeWhile ?P key @ CHR ''.'' # tl (dropWhile ?P key) = key"
    using takeWhile_dropWhile_id [of ?P key] by simp
  then show "key = fst (split_key key) @ ''.'' @ snd (split_key key)"
    by (simp add: split_key_def)
  show "CHR ''.'' \<notin> set (fst (split_key key))"
    using set_takeWhileD [of "CHR ''.''" ?P key] by (auto simp: split_key_def)
qed

lemma startswith_join: "startswith (r @ ''.'' @ l) (r @ ''.'')"
  by (simp add: startswith_def)

lemma level_lookup_dotted:
  "CHR ''.'' \<notin> set r \<Longrightarrow> level_lookup res (r @ CHR ''.'' # l) = sub_lookup (map_of res r) l"
  using split_key_dotted [of r l] by (simp add: level_lookup_def)

lemma level_lookup_dotless:
  "CHR ''.'' \<notin> set k \<Longrightarrow> level_lookup res k = term_lookup (map_of res k)"
  by (simp add: level_lookup_def)

text \<open>One step of the first loop stores one entry, when it meets no conflict.\<close>

lemma resolve_entry_dotless:
  assumes "CHR ''.'' \<notin> set key" and "\<And>sub. map_of acc key \<noteq> Some (Inr sub)"
  shows "resolve_entry (key, v) acc = Inr (setitem key (Inl v) acc)"
    and "level_lookup (setitem key (Inl v) acc) = (level_lookup acc)(key \<mapsto> v)"
proof -
  show "resolve_entry (key, v) acc = Inr (setitem key (Inl v) acc)"
    using assms(1) by (simp add: resolve_entry_def)
  show "level_lookup (setitem key (Inl v) acc) = (level_lookup acc)(key \<mapsto> v)"
  proof
    fix k
    show "level_lookup (setitem key (Inl v) acc) k = ((level_lookup acc)(key \<mapsto> v)) k"
    proof (cases "CHR ''.'' \<in> set k")
      case False
      then show ?thesis by (simp add: level_lookup_def update_conv')
    next
      case True
      with assms(1) have ne: "k \<noteq> key" by auto
      show ?thesis
      proof (cases "fst (split_key k) = key")
        case False
        with True ne show ?thesis by (simp add: level_lookup_def update_conv')
      next
        case r: True
        from assms(2) have "sub_lookup (map_of acc key) (snd (split_key k)) = None"
          by (cases "(map_of acc key, snd (split_key k))" rule: sub_lookup.cases) auto
        with True ne r show ?thesis by (simp add: level_lookup_def update_conv')
      qed
    qed
  qed
qed

lemma resolve_entry_dotted:
  assumes "CHR ''.'' \<in> set key" and "\<And>x. map_of acc (fst (split_key key)) \<noteq> Some (Inl x)"
  defines "r \<equiv> fst (split_key key)" and "l \<equiv> snd (split_key key)"
  defines "sub0 \<equiv> (case map_of acc r of Some (Inr s) \<Rightarrow> s | _ \<Rightarrow> [])"
  shows "resolve_entry (key, v) acc = Inr (setitem r (Inr (setitem l v sub0)) acc)"
    and "level_lookup (setitem r (Inr (setitem l v sub0)) acc) = (level_lookup acc)(key \<mapsto> v)"
proof -
  have sk: "split_key key = (r, l)" by (simp add: r_def l_def)
  have key: "key = r @ ''.'' @ l" and nd: "CHR ''.'' \<notin> set r"
    using split_key_join [OF assms(1)] by (simp_all add: r_def l_def)
  show "resolve_entry (key, v) acc = Inr (setitem r (Inr (setitem l v sub0)) acc)"
  proof (cases "map_of acc r")
    case None
    then show ?thesis
      using assms(1) sk by (simp add: resolve_entry_def contains_def sub0_def update_conv')
  next
    case (Some s)
    with assms(2) obtain sub where "s = Inr sub" by (cases s) (auto simp: r_def)
    with Some show ?thesis
      using assms(1) sk by (simp add: resolve_entry_def contains_def sub0_def)
  qed
  have old: "sub_lookup (map_of acc r) l' = map_of sub0 l'" for l'
    using assms(2) unfolding sub0_def r_def
    by (cases "(map_of acc (fst (split_key key)), l')" rule: sub_lookup.cases) auto
  have noterm: "term_lookup (map_of acc r) = None"
    using assms(2) unfolding r_def
    by (cases "map_of acc (fst (split_key key))" rule: term_lookup.cases) auto
  show "level_lookup (setitem r (Inr (setitem l v sub0)) acc) = (level_lookup acc)(key \<mapsto> v)"
  proof
    fix k
    show "level_lookup (setitem r (Inr (setitem l v sub0)) acc) k = ((level_lookup acc)(key \<mapsto> v)) k"
    proof (cases "CHR ''.'' \<in> set k")
      case False
      with assms(1) have ne: "k \<noteq> key" by auto
      show ?thesis
      proof (cases "k = r")
        case True
        with False ne noterm show ?thesis by (simp add: level_lookup_def update_conv')
      next
        case nr: False
        with False ne show ?thesis by (simp add: level_lookup_def update_conv')
      qed
    next
      case True
      have k: "k = fst (split_key k) @ ''.'' @ snd (split_key k)" using split_key_join(1) [OF True] .
      show ?thesis
      proof (cases "fst (split_key k) = r")
        case False
        with key k have "k \<noteq> key" using sk by auto
        with True False show ?thesis by (simp add: level_lookup_def update_conv')
      next
        case r: True
        have eq: "k = key \<longleftrightarrow> snd (split_key k) = l"
          using k key r by (metis same_append_eq sk snd_conv)
        from True r have "level_lookup (setitem r (Inr (setitem l v sub0)) acc) k
            = ((map_of sub0)(l \<mapsto> v)) (snd (split_key k))"
          by (simp add: level_lookup_def update_conv')
        moreover from True r have "level_lookup acc k = map_of sub0 (snd (split_key k))"
          using old by (simp add: level_lookup_def)
        ultimately show ?thesis using eq by simp
      qed
    qed
  qed
qed


lemma setitem_nonempty: "setitem k v al \<noteq> []"
  by (cases al) auto

lemma level_ok_dotless:
  "level_ok acc \<Longrightarrow> CHR ''.'' \<notin> set key \<Longrightarrow> level_ok (setitem key (Inl v) acc)"
  unfolding level_ok_def
  by (auto simp: distinct_update update_conv' dom_update simp del: map_of_eq_Some_iff
        split: if_splits)

lemma level_ok_dotted:
  assumes "level_ok acc" and "CHR ''.'' \<notin> set r"
  shows "level_ok (setitem r (Inr (setitem l v (case map_of acc r of Some (Inr s) \<Rightarrow> s | _ \<Rightarrow> []))) acc)"
proof -
  let ?sub0 = "case map_of acc r of Some (Inr s) \<Rightarrow> s | _ \<Rightarrow> []"
  have "distinct (map fst ?sub0)"
    using assms(1) by (auto simp: level_ok_def split: option.splits sum.splits)
  then have "distinct (map fst (setitem l v ?sub0))" by (simp add: distinct_update)
  with assms setitem_nonempty [of l v ?sub0] show ?thesis
    unfolding level_ok_def
    by (auto simp: distinct_update update_conv' dom_update simp del: map_of_eq_Some_iff
          split: if_splits)
qed

text \<open>The first loop of \<open>flat_to_deep\<close> on entries that do not conflict.\<close>

lemma resolve_fold:
  assumes "level_ok acc" and "distinct (map fst xs)"
    and "fst ` set xs \<inter> dom (level_lookup acc) = {}"
    and "\<And>k k'. k \<in> dom (level_lookup acc) \<union> fst ` set xs
          \<Longrightarrow> k' \<in> dom (level_lookup acc) \<union> fst ` set xs \<Longrightarrow> \<not> startswith k' (k @ ''.'')"
  shows "\<exists>L. foldM resolve_entry xs acc = Inr L \<and> level_ok L
            \<and> level_lookup L = level_lookup acc ++ map_of xs"
  using assms
proof (induction xs arbitrary: acc)
  case Nil
  then show ?case by simp
next
  case (Cons p xs)
  obtain key v where p: "p = (key, v)" by (cases p)
  have pf: "\<not> startswith k' (k @ ''.'')"
    if "k \<in> dom (level_lookup acc) \<union> fst ` set (p # xs)"
      "k' \<in> dom (level_lookup acc) \<union> fst ` set (p # xs)" for k k'
    using Cons.prems(4) that by blast
  have keyin: "key \<in> dom (level_lookup acc) \<union> fst ` set (p # xs)" using p by simp
  obtain acc1 where step: "resolve_entry (key, v) acc = Inr acc1"
    and ok1: "level_ok acc1" and look1: "level_lookup acc1 = (level_lookup acc)(key \<mapsto> v)"
  proof (cases "CHR ''.'' \<in> set key")
    case False
    have nc: "map_of acc key \<noteq> Some (Inr sub)" for sub
    proof
      assume m: "map_of acc key = Some (Inr sub)"
      with Cons.prems(1) have "sub \<noteq> []" by (auto simp: level_ok_def)
      then obtain l w rest where sub: "sub = (l, w) # rest" by (cases sub) auto
      from m sub False have "level_lookup acc (key @ ''.'' @ l) = Some w"
        by (simp add: level_lookup_dotted)
      then have "key @ ''.'' @ l \<in> dom (level_lookup acc) \<union> fst ` set (p # xs)" by blast
      from pf [OF keyin this] show False by (simp add: startswith_def)
    qed
    from resolve_entry_dotless [OF False nc] level_ok_dotless [OF Cons.prems(1) False]
    show ?thesis using that by blast
  next
    case True
    let ?r = "fst (split_key key)" and ?l = "snd (split_key key)"
    have key: "key = ?r @ ''.'' @ ?l" and nd: "CHR ''.'' \<notin> set ?r"
      using split_key_join [OF True] by simp_all
    have nc: "map_of acc ?r \<noteq> Some (Inl x)" for x
    proof
      assume m: "map_of acc ?r = Some (Inl x)"
      with nd have "level_lookup acc ?r = Some x" by (simp add: level_lookup_dotless)
      then have "?r \<in> dom (level_lookup acc) \<union> fst ` set (p # xs)" by blast
      from pf [OF this keyin] key show False by (metis startswith_join)
    qed
    from resolve_entry_dotted [OF True nc] level_ok_dotted [OF Cons.prems(1) nd]
    show ?thesis using that by blast
  qed
  have fresh: "key \<notin> fst ` set xs" using Cons.prems(2) p by auto
  have d: "distinct (map fst xs)" using Cons.prems(2) by simp
  have dom1: "dom (level_lookup acc1) = insert key (dom (level_lookup acc))"
    by (simp add: look1)
  have disj: "fst ` set xs \<inter> dom (level_lookup acc1) = {}"
    using Cons.prems(3) fresh dom1 by auto
  have pf1: "\<not> startswith k' (k @ ''.'')"
    if "k \<in> dom (level_lookup acc1) \<union> fst ` set xs" "k' \<in> dom (level_lookup acc1) \<union> fst ` set xs"
    for k k'
  proof (rule pf)
    show "k \<in> dom (level_lookup acc) \<union> fst ` set (p # xs)" using that(1) dom1 p by auto
    show "k' \<in> dom (level_lookup acc) \<union> fst ` set (p # xs)" using that(2) dom1 p by auto
  qed
  from Cons.IH [OF ok1 d disj pf1] obtain L where
    L: "foldM resolve_entry xs acc1 = Inr L" "level_ok L"
      "level_lookup L = level_lookup acc1 ++ map_of xs"
    by blast
  have none: "key \<notin> dom (map_of xs)" using fresh by (simp add: domIff map_of_eq_None_iff)
  have "level_lookup acc ++ map_of (p # xs) = (level_lookup acc ++ map_of xs)(key \<mapsto> v)"
    unfolding p by (simp only: map_of.simps fst_conv snd_conv map_add_upd)
  moreover have "(level_lookup acc)(key \<mapsto> v) ++ map_of xs
      = (level_lookup acc ++ map_of xs)(key \<mapsto> v)"
    using none by (rule map_add_upd_left)
  ultimately have "level_lookup L = level_lookup acc ++ map_of (p # xs)"
    using L(3) by (simp only: look1)
  moreover have "foldM resolve_entry (p # xs) acc = Inr L" using step L(1) p by simp
  ultimately show ?case using L(2) by blast
qed

lemma resolve_level_free:
  assumes "distinct (map fst p)" and "prefix_free p"
  shows "\<exists>L. resolve_level p = Inr L \<and> level_ok L \<and> level_lookup L = map_of p"
proof -
  have e: "level_lookup ([] :: (string \<times> ('a + 'a flat)) list) = Map.empty"
    by (rule ext) (simp add: level_lookup_def)
  have "\<exists>L. foldM resolve_entry p [] = Inr L \<and> level_ok L
            \<and> level_lookup L = level_lookup [] ++ map_of p"
  proof (rule resolve_fold)
    show "level_ok ([] :: (string \<times> ('a + 'a flat)) list)" by (simp add: level_ok_def)
    show "distinct (map fst p)" by (rule assms(1))
    show "fst ` set p \<inter> dom (level_lookup ([] :: (string \<times> ('a + 'a flat)) list)) = {}"
      by (simp add: e)
    show "\<not> startswith k' (k @ ''.'')"
      if "k \<in> dom (level_lookup ([] :: (string \<times> ('a + 'a flat)) list)) \<union> fst ` set p"
        "k' \<in> dom (level_lookup ([] :: (string \<times> ('a + 'a flat)) list)) \<union> fst ` set p" for k k'
      using that prefix_freeD [OF assms(2)] by (simp add: e)
  qed
  then show ?thesis by (simp add: resolve_level_def e)
qed


text \<open>The second loop, and the flat form of what it builds.\<close>

lemma nest_fold:
  assumes "\<And>k sub. (k, Inr sub) \<in> set L \<Longrightarrow> \<exists>d. flat_to_deep sub = Inr d"
  shows "foldM nest_entry L acc = Inr (acc @ map nest_level L)"
  using assms
proof (induction L arbitrary: acc)
  case Nil
  then show ?case by simp
next
  case (Cons p L)
  obtain k s where p: "p = (k, s)" by (cases p)
  have ih: "foldM nest_entry L acc' = Inr (acc' @ map nest_level L)" for acc'
    using Cons.prems by (intro Cons.IH) auto
  show ?case
  proof (cases s)
    case (Inl x)
    with ih [of "acc @ [(k, Term x)]"] p show ?thesis
      by (simp add: nest_entry_def nest_level_def)
  next
    case (Inr sub)
    with Cons.prems [of k sub] p obtain d where "flat_to_deep sub = Inr d" by auto
    with ih [of "acc @ [(k, Dict d)]"] p Inr show ?thesis
      by (simp add: nest_entry_def nest_level_def)
  qed
qed

lemma prefixed_lookup:
  assumes "CHR ''.'' \<notin> set r"
  shows "map_of (map (\<lambda>(sub_key, sub_val). (r @ CHR ''.'' # sub_key, sub_val)) ys) k
     = (if CHR ''.'' \<in> set k \<and> fst (split_key k) = r then map_of ys (snd (split_key k)) else None)"
proof (induction ys)
  case Nil
  then show ?case by simp
next
  case (Cons p ys)
  obtain sk sv where p: "p = (sk, sv)" by (cases p)
  have "k = r @ ''.'' @ sk \<longleftrightarrow> CHR ''.'' \<in> set k \<and> fst (split_key k) = r \<and> snd (split_key k) = sk"
  proof
    assume "k = r @ ''.'' @ sk"
    with split_key_dotted [OF assms, of sk]
    show "CHR ''.'' \<in> set k \<and> fst (split_key k) = r \<and> snd (split_key k) = sk" by simp
  next
    assume "CHR ''.'' \<in> set k \<and> fst (split_key k) = r \<and> snd (split_key k) = sk"
    with split_key_join(1) [of k] show "k = r @ ''.'' @ sk" by auto
  qed
  with Cons.IH p show ?case by auto
qed

lemma nested_lookup:
  assumes "distinct (map fst L)" and "\<And>r. r \<in> fst ` set L \<Longrightarrow> CHR ''.'' \<notin> set r"
    and "\<And>r sub. (r, Inr sub) \<in> set L
          \<Longrightarrow> map_of (deep_to_flat (projr (flat_to_deep sub))) = map_of sub"
  shows "map_of (concat (map flat_entry (map nest_level L))) k = level_lookup L k"
  using assms
proof (induction L)
  case Nil
  then show ?case by (simp add: level_lookup_def)
next
  case (Cons p L)
  obtain r0 s0 where p: "p = (r0, s0)" by (cases p)
  have nd: "CHR ''.'' \<notin> set r0" using Cons.prems(2) p by simp
  have fresh: "map_of L r0 = None" using Cons.prems(1) p by (simp add: map_of_eq_None_iff)
  have ih: "map_of (concat (map flat_entry (map nest_level L))) k = level_lookup L k"
    using Cons.prems by (intro Cons.IH) auto
  have app: "map_of (concat (map flat_entry (map nest_level (p # L)))) k
      = (case map_of (flat_entry (nest_level (r0, s0))) k of
           None \<Rightarrow> level_lookup L k | Some v \<Rightarrow> Some v)"
    using ih by (auto simp: p map_add_def split: option.splits)
  show ?case
  proof (cases "CHR ''.'' \<in> set k")
    case False
    have rest: "level_lookup (p # L) k = (if k = r0 then term_lookup (Some s0) else level_lookup L k)"
      using False by (simp add: level_lookup_def p)
    show ?thesis
    proof (cases s0)
      case (Inl x)
      then have "map_of (flat_entry (nest_level (r0, s0))) k = (if k = r0 then Some x else None)"
        by (simp add: nest_level_def flat_entry_def)
      with app rest Inl show ?thesis by simp
    next
      case (Inr sub)
      then have "map_of (flat_entry (nest_level (r0, s0))) k = None"
        using False by (simp add: nest_level_def flat_entry_def prefixed_lookup [OF nd])
      moreover have "k = r0 \<Longrightarrow> level_lookup L k = None"
        using False fresh by (simp add: level_lookup_def)
      ultimately show ?thesis using app rest Inr by simp
    qed
  next
    case True
    let ?r = "fst (split_key k)" and ?l = "snd (split_key k)"
    have rest: "level_lookup (p # L) k
        = (if ?r = r0 then sub_lookup (Some s0) ?l else level_lookup L k)"
      using True by (simp add: level_lookup_def p)
    have gone: "?r = r0 \<Longrightarrow> level_lookup L k = None"
      using True fresh by (simp add: level_lookup_def)
    show ?thesis
    proof (cases s0)
      case (Inl x)
      then have "map_of (flat_entry (nest_level (r0, s0))) k = None"
        using True nd by (auto simp: nest_level_def flat_entry_def)
      with app rest gone Inl show ?thesis by simp
    next
      case (Inr sub)
      have "map_of (deep_to_flat (projr (flat_to_deep sub))) = map_of sub"
        using Cons.prems(3) [of r0 sub] p Inr by simp
      then have "map_of (flat_entry (nest_level (r0, s0))) k = (if ?r = r0 then map_of sub ?l else None)"
        using True Inr by (simp add: nest_level_def flat_entry_def prefixed_lookup [OF nd])
      with app rest gone Inr show ?thesis by (simp split: option.splits)
    qed
  qed
qed

lemma wf_dictI:
  "distinct (map fst cfg) \<Longrightarrow> (\<And>k d. (k, Dict d) \<in> set cfg \<Longrightarrow> wf_dict d) \<Longrightarrow> wf_dict cfg"
  by (auto simp: wf_dict.simps [of cfg] list_all_iff split: cfg.splits)

lemma dotlessI:
  "(\<And>k v. (k, v) \<in> set cfg \<Longrightarrow> CHR ''.'' \<notin> set k)
    \<Longrightarrow> (\<And>k d. (k, Dict d) \<in> set cfg \<Longrightarrow> dotless d) \<Longrightarrow> dotless cfg"
  by (auto simp: dotless.simps [of cfg] list_all_iff split: cfg.splits)

lemma startswith_append: "startswith (a @ s) (a @ pre) = startswith s pre"
  by (simp add: startswith_def)

lemma nest_level_keys: "map fst (map nest_level L) = map fst L"
  by (induction L) (auto simp: nest_level_def)

lemma nest_level_Dict:
  "(k, Dict d) \<in> set (map nest_level L) \<Longrightarrow> \<exists>sub. (k, Inr sub) \<in> set L \<and> d = projr (flat_to_deep sub)"
  by (auto simp: nest_level_def split: sum.splits)

text \<open>
  A flat configuration with distinct keys, none of which continues another one after a
  dot, nests back: \<open>flat_to_deep\<close> returns a configuration whose flat form has the same
  entries.
\<close>

lemma nest_back:
  "distinct (map fst p) \<Longrightarrow> prefix_free p
    \<Longrightarrow> \<exists>res. flat_to_deep p = Inr res \<and> wf_dict res \<and> dotless res
          \<and> map_of (deep_to_flat res) = map_of p"
proof (induction "flat_size p" arbitrary: p rule: less_induct)
  case less
  from resolve_level_free [OF less.prems] obtain L where
    L: "resolve_level p = Inr L" and ok: "level_ok L" and look: "level_lookup L = map_of p"
    by blast
  from ok have dL: "distinct (map fst L)" and ndL: "\<And>r. r \<in> fst ` set L \<Longrightarrow> CHR ''.'' \<notin> set r"
    by (auto simp: level_ok_def)
  have sub: "\<exists>d. flat_to_deep sub = Inr d \<and> wf_dict d \<and> dotless d
        \<and> map_of (deep_to_flat d) = map_of sub"
    if m: "(r, Inr sub) \<in> set L" for r sub
  proof (rule less.hyps)
    show "flat_size sub < flat_size p" using resolve_level_smaller [OF L m] .
    have mo: "map_of L r = Some (Inr sub)" using dL m by simp
    with ok show "distinct (map fst sub)" by (auto simp: level_ok_def)
    have nd: "CHR ''.'' \<notin> set r" using ndL m by force
    have inp: "r @ ''.'' @ l \<in> fst ` set p" if "l \<in> fst ` set sub" for l
    proof -
      from that obtain w where "map_of sub l = Some w"
        by (cases "map_of sub l") (auto simp: map_of_eq_None_iff)
      then have "level_lookup L (r @ CHR ''.'' # l) = Some w"
        using mo by (simp add: level_lookup_dotted [OF nd])
      then have "map_of p (r @ CHR ''.'' # l) = Some w" by (simp only: look)
      then have "(r @ CHR ''.'' # l, w) \<in> set p" by (rule map_of_SomeD)
      then have "fst (r @ CHR ''.'' # l, w) \<in> fst ` set p" by (rule imageI)
      then show ?thesis by simp
    qed
    show "prefix_free sub"
    proof (rule prefix_freeI)
      fix l l'
      assume a: "l \<in> fst ` set sub" and b: "l' \<in> fst ` set sub"
      have "\<not> startswith (r @ ''.'' @ l') ((r @ ''.'' @ l) @ ''.'')"
        using prefix_freeD [OF less.prems(2) inp [OF a] inp [OF b]] .
      moreover have "startswith (r @ ''.'' @ l') ((r @ ''.'' @ l) @ ''.'') = startswith l' (l @ ''.'')"
        using startswith_append [of "r @ ''.''" l' "l @ ''.''"] by simp
      ultimately show "\<not> startswith l' (l @ ''.'')" by simp
    qed
  qed
  have nest: "foldM nest_entry L [] = Inr ([] @ map nest_level L)"
  proof (rule nest_fold)
    fix k s
    assume "(k, Inr s) \<in> set L"
    from sub [OF this] show "\<exists>d. flat_to_deep s = Inr d" by blast
  qed
  let ?res = "map nest_level L"
  have res: "flat_to_deep p = Inr ?res"
    using L nest by (simp add: flat_to_deep_unfold [of p])
  have wf: "wf_dict ?res"
  proof (rule wf_dictI)
    show "distinct (map fst ?res)" using dL by (simp only: nest_level_keys)
    fix k d
    assume "(k, Dict d) \<in> set ?res"
    then obtain s where "(k, Inr s) \<in> set L" "d = projr (flat_to_deep s)"
      using nest_level_Dict by blast
    with sub [of k s] show "wf_dict d" by auto
  qed
  have dl: "dotless ?res"
  proof (rule dotlessI)
    fix k v
    assume "(k, v) \<in> set ?res"
    then have "fst (k, v) \<in> fst ` set ?res" by (rule imageI)
    then have "k \<in> set (map fst ?res)" by (simp only: set_map fst_conv)
    then have "k \<in> fst ` set L" by (simp only: nest_level_keys set_map)
    then show "CHR ''.'' \<notin> set k" by (rule ndL)
  next
    fix k d
    assume "(k, Dict d) \<in> set ?res"
    then obtain s where "(k, Inr s) \<in> set L" "d = projr (flat_to_deep s)"
      using nest_level_Dict by blast
    with sub [of k s] show "dotless d" by auto
  qed
  have "map_of (deep_to_flat ?res) k = map_of p k" for k
  proof -
    have "map_of (concat (map flat_entry ?res)) k = level_lookup L k"
    proof (rule nested_lookup [OF dL ndL])
      fix r s
      assume "(r, Inr s) \<in> set L"
      with sub [of r s] show "map_of (deep_to_flat (projr (flat_to_deep s))) = map_of s" by auto
    qed
    moreover have "deep_to_flat ?res = concat (map flat_entry ?res)"
      using deep_to_flat_concat [OF wf dl] by (rule conjunct1)
    ultimately show ?thesis by (simp only: look)
  qed
  then have "map_of (deep_to_flat ?res) = map_of p" by (rule ext)
  with res wf dl show ?case by blast
qed


section \<open>Properties\<close>

text \<open>
  C1. End-to-end selector unlocking: the root configuration has the single field
  \<open>backbone_class\<close> with the missing sentinel, the registry knows the class \<open>B\<close> with
  the field \<open>y: int = 2\<close>, and the tokens are \<open>--backbone_class B --backbone.y 5\<close>. With
  the model of the argument parser, whatever the literal evaluator, the files, the
  process arguments and the other classes of the registry, and with room for two
  nested calls of the schema expansion, \<open>parse_args\<close> returns the root whose
  \<open>backbone\<close> is an instance of \<open>B\<close> with \<open>y = 5\<close>.
\<close>

theorem selector_unlocking_end_to_end:
  assumes "reg ''B'' = Some [(''y'', TInt, VInt 2)]"
  shows "parse_args (parse_known_args le) load (Suc (Suc depth)) reg argv
      [(''backbone_class'', TVal VMissing)]
      (Some [''--backbone_class'', ''B'', ''--backbone.y'', ''5''])
    = Inr [(''backbone_class'', TVal (VStr ''B'')),
           (''backbone'', TInst ''B'' [(''y'', TVal (VInt 5))])]"
proof -
  let ?args = "[''--backbone_class'', ''B'', ''--backbone.y'', ''5'']"
  let ?pk = "parse_known_args le"
  let ?d = "Suc (Suc depth)"
  let ?cfg2 = "[(''backbone_class'', Term (VStr ''B''))]"
  let ?cfg3 = "[(''backbone_class'', Term (VStr ''B'')), (''backbone'', Dict [(''y'', Term (VInt 5))])]"
  have l3: "parse_loop ?pk ?d reg ?args ?cfg3 0 (Some []) = (1, Inr ?cfg3)"
    using parse_loop_exit [OF it3 [where reg = reg and le = le and depth = depth] _ ftd2,
        of "Some []" 0] assms
    by (simp add: continuing_def)
  have l2: "parse_loop ?pk ?d reg ?args ?cfg2 (length [''--backbone.y'', ''5''])
      (Some [''--backbone.y'', ''5'']) = (2, Inr ?cfg3)"
    using parse_loop_continue [OF it2 [where reg = reg and le = le and depth = depth] _ _ ftd2,
        of "Some [''--backbone.y'', ''5'']" "length [''--backbone.y'', ''5'']"] l3 assms
    by (simp add: continuing_def)
  have l1: "parse_loop ?pk ?d reg ?args [(''backbone_class'', Term VMissing)] (length ?args) None
      = (3, Inr ?cfg3)"
    using parse_loop_continue [OF it1 _ _ ftd1, of None "length ?args" le depth reg] l2
    by (simp add: continuing_def)
  show ?thesis
    using cls3 [where reg = reg] assms l1 by (simp add: parse_args_def eval_defs)
qed

theorem selector_unlocking_end_to_end_witness:
  "reg_AB ''B'' = Some [(''y'', TInt, VInt 2)] \<and>
   parse_args (parse_known_args literal_eval_sample) no_file (Suc (Suc 998)) reg_AB []
      [(''backbone_class'', TVal VMissing)]
      (Some [''--backbone_class'', ''B'', ''--backbone.y'', ''5''])
    = Inr [(''backbone_class'', TVal (VStr ''B'')),
           (''backbone'', TInst ''B'' [(''y'', TVal (VInt 5))])]"
proof -
  have h: "reg_AB ''B'' = Some [(''y'', TInt, VInt 2)]" by (simp add: reg_AB_def)
  from h selector_unlocking_end_to_end [where reg = reg_AB and le = literal_eval_sample
      and load = no_file and depth = 998 and argv = "[]"]
  show ?thesis by blast
qed

text \<open>
  C3. Stall detection. When the loop of \<open>parse_args\<close>, started on \<open>cfg0\<close>, arrives at an
  iteration that is set to continue and whose parse leaves at least as many unrecognised
  tokens as the iteration before left, the loop stops there with \<open>StalledResolution\<close>,
  and so does \<open>parse_args\<close>. In particular, with the model of the argument parser: when
  a token is an option that matches no key of the surface in any iteration the loop
  arrives at (no selector unlocks it), and the stages of these iterations raise nothing
  else, the loop does not run forever and \<open>parse_args\<close> raises \<open>StalledResolution\<close>.
\<close>

theorem stall_detection:
  "(\<forall>n cfg nb_unparsed unparsed parsed_cfg unparsed'.
      loop_state pk depth reg args cfg0 n = Some (cfg, nb_unparsed, unparsed) \<and>
      parse_iteration pk depth reg args cfg = Inr (parsed_cfg, unparsed') \<and>
      continuing unparsed \<and> nb_unparsed \<le> length unparsed'
      \<longrightarrow> parse_loop pk depth reg args cfg0 (length args) None = (Suc n, Inl StalledResolution)
        \<and> (\<forall>load argv tcfg.
              (if contains (to_dict_format tcfg) ''cfg_file''
               then apply_cfg_file pk load (to_dict_format tcfg) args
               else Inr (to_dict_format tcfg)) = Inr cfg0
              \<longrightarrow> parse_args pk load depth reg argv tcfg (Some args) = Inl StalledResolution))
   \<and> (tok \<in> set args \<and>
      (\<forall>n cfg nb_unparsed unparsed.
          loop_state (parse_known_args le) depth reg args cfg0 n = Some (cfg, nb_unparsed, unparsed)
          \<longrightarrow> (\<exists>arg_cfg full_cfg parsed_cfg unparsed'.
                 to_arg_format cfg = Inr arg_cfg \<and>
                 add_default_args depth reg arg_cfg = Inr full_cfg \<and>
                 parse_optional (option_table (get_arg_parser (deep_to_flat full_cfg))) tok = Unknown \<and>
                 parse_iteration (parse_known_args le) depth reg args cfg = Inr (parsed_cfg, unparsed') \<and>
                 (length unparsed' < nb_unparsed \<longrightarrow> (\<exists>cfg'. flat_to_deep parsed_cfg = Inr cfg'))))
      \<longrightarrow> (\<exists>n. parse_loop (parse_known_args le) depth reg args cfg0 (length args) None
                  = (Suc n, Inl StalledResolution))
        \<and> (\<forall>load argv tcfg.
              (if contains (to_dict_format tcfg) ''cfg_file''
               then apply_cfg_file (parse_known_args le) load (to_dict_format tcfg) args
               else Inr (to_dict_format tcfg)) = Inr cfg0
              \<longrightarrow> parse_args (parse_known_args le) load depth reg argv tcfg (Some args)
                    = Inl StalledResolution))"
proof (intro conjI allI impI)
  fix n cfg nb_unparsed unparsed parsed_cfg unparsed'
  assume a: "loop_state pk depth reg args cfg0 n = Some (cfg, nb_unparsed, unparsed) \<and>
      parse_iteration pk depth reg args cfg = Inr (parsed_cfg, unparsed') \<and>
      continuing unparsed \<and> nb_unparsed \<le> length unparsed'"
  then show l: "parse_loop pk depth reg args cfg0 (length args) None = (Suc n, Inl StalledResolution)"
    using stalled_at by blast
  fix load argv tcfg
  assume "(if contains (to_dict_format tcfg) ''cfg_file''
               then apply_cfg_file pk load (to_dict_format tcfg) args
               else Inr (to_dict_format tcfg)) = Inr cfg0"
  from parse_args_loop_error [OF this l]
  show "parse_args pk load depth reg argv tcfg (Some args) = Inl StalledResolution" .
next
  let ?pk = "parse_known_args le"
  assume b: "tok \<in> set args \<and>
      (\<forall>n cfg nb_unparsed unparsed.
          loop_state ?pk depth reg args cfg0 n = Some (cfg, nb_unparsed, unparsed)
          \<longrightarrow> (\<exists>arg_cfg full_cfg parsed_cfg unparsed'.
                 to_arg_format cfg = Inr arg_cfg \<and>
                 add_default_args depth reg arg_cfg = Inr full_cfg \<and>
                 parse_optional (option_table (get_arg_parser (deep_to_flat full_cfg))) tok = Unknown \<and>
                 parse_iteration ?pk depth reg args cfg = Inr (parsed_cfg, unparsed') \<and>
                 (length unparsed' < nb_unparsed \<longrightarrow> (\<exists>cfg'. flat_to_deep parsed_cfg = Inr cfg'))))"
  have ok: "\<exists>parsed_cfg unparsed'. parse_iteration ?pk depth reg args cfg = Inr (parsed_cfg, unparsed')
            \<and> unparsed' \<noteq> []
            \<and> (length unparsed' < nb \<longrightarrow> (\<exists>cfg'. flat_to_deep parsed_cfg = Inr cfg'))"
    if st: "loop_state ?pk depth reg args cfg0 n = Some (cfg, nb, unp)" for n cfg nb unp
  proof -
    from b st obtain arg_cfg full_cfg parsed_cfg unparsed' where
      s1: "to_arg_format cfg = Inr arg_cfg" and s2: "add_default_args depth reg arg_cfg = Inr full_cfg"
      and u: "parse_optional (option_table (get_arg_parser (deep_to_flat full_cfg))) tok = Unknown"
      and it: "parse_iteration ?pk depth reg args cfg = Inr (parsed_cfg, unparsed')"
      and fd: "length unparsed' < nb \<longrightarrow> (\<exists>cfg'. flat_to_deep parsed_cfg = Inr cfg')"
      by blast
    from it s1 s2 have "?pk (get_arg_parser (deep_to_flat full_cfg)) args = Inr (parsed_cfg, unparsed')"
      by (auto elim!: parse_iteration_stages)
    from unknown_token_residual [OF this _ u] b have "tok \<in> set unparsed'" by blast
    then have "unparsed' \<noteq> []" by auto
    with it fd show ?thesis by blast
  qed
  show l: "\<exists>n. parse_loop ?pk depth reg args cfg0 (length args) None = (Suc n, Inl StalledResolution)"
  proof (rule never_recognised)
    fix n cfg nb unp
    assume "loop_state ?pk depth reg args cfg0 n = Some (cfg, nb, unp)"
    then show "\<exists>parsed_cfg unparsed'. parse_iteration ?pk depth reg args cfg = Inr (parsed_cfg, unparsed')
            \<and> unparsed' \<noteq> []
            \<and> (length unparsed' < nb \<longrightarrow> (\<exists>cfg'. flat_to_deep parsed_cfg = Inr cfg'))"
      by (rule ok)
  qed
  fix load argv tcfg
  assume "(if contains (to_dict_format tcfg) ''cfg_file''
               then apply_cfg_file ?pk load (to_dict_format tcfg) args
               else Inr (to_dict_format tcfg)) = Inr cfg0"
  with l parse_args_loop_error
  show "parse_args ?pk load depth reg argv tcfg (Some args) = Inl StalledResolution"
    by blast
qed


lemma bogus_run:
  "loop_state (parse_known_args literal_eval_sample) 1000 reg_AB [''--x'', ''3'', ''--bogus'', ''1'']
      [(''x'', Term (VInt 1))] (Suc 0) = Some ([(''x'', Term (VInt 3))], 2, Some [''--bogus'', ''1''])"
  "loop_state (parse_known_args literal_eval_sample) 1000 reg_AB [''--x'', ''3'', ''--bogus'', ''1'']
      [(''x'', Term (VInt 1))] (Suc (Suc 0)) = None"
  "to_arg_format [(''x'', Term (VInt 1))] = Inr [(''x'', Term (TInt, VInt 1))]"
  "to_arg_format [(''x'', Term (VInt 3))] = Inr [(''x'', Term (TInt, VInt 3))]"
  "add_default_args 1000 reg_AB [(''x'', Term (TInt, VInt 1))] = Inr [(''x'', Term (TInt, VInt 1))]"
  "add_default_args 1000 reg_AB [(''x'', Term (TInt, VInt 3))] = Inr [(''x'', Term (TInt, VInt 3))]"
  "parse_optional (option_table (get_arg_parser (deep_to_flat [(''x'', Term (TInt, VInt 1))]))) ''--bogus''
     = Unknown"
  "parse_optional (option_table (get_arg_parser (deep_to_flat [(''x'', Term (TInt, VInt 3))]))) ''--bogus''
     = Unknown"
  "parse_iteration (parse_known_args literal_eval_sample) 1000 reg_AB
     [''--x'', ''3'', ''--bogus'', ''1''] [(''x'', Term (VInt 1))]
   = Inr ([(''x'', VInt 3)], [''--bogus'', ''1''])"
  "parse_iteration (parse_known_args literal_eval_sample) 1000 reg_AB
     [''--x'', ''3'', ''--bogus'', ''1''] [(''x'', Term (VInt 3))]
   = Inr ([(''x'', VInt 3)], [''--bogus'', ''1''])"
  "flat_to_deep [(''x'', VInt 3)] = Inr [(''x'', Term (VInt 3))]"
  "(if contains (to_dict_format [(''x'', TVal (VInt 1))]) ''cfg_file''
    then apply_cfg_file (parse_known_args literal_eval_sample) no_file
           (to_dict_format [(''x'', TVal (VInt 1))]) [''--x'', ''3'', ''--bogus'', ''1'']
    else Inr (to_dict_format [(''x'', TVal (VInt 1))])) = Inr [(''x'', Term (VInt 1))]"
  by code_simp+

theorem stall_detection_witness:
  "loop_state (parse_known_args literal_eval_sample) 1000 reg_AB [''--x'', ''3'', ''--bogus'', ''1'']
      [(''x'', Term (VInt 1))] (Suc 0) = Some ([(''x'', Term (VInt 3))], 2, Some [''--bogus'', ''1''])
   \<and> parse_iteration (parse_known_args literal_eval_sample) 1000 reg_AB
       [''--x'', ''3'', ''--bogus'', ''1''] [(''x'', Term (VInt 3))]
     = Inr ([(''x'', VInt 3)], [''--bogus'', ''1''])
   \<and> continuing (Some [''--bogus'', ''1'']) \<and> (2::nat) \<le> length [''--bogus'', ''1'']
   \<and> parse_loop (parse_known_args literal_eval_sample) 1000 reg_AB [''--x'', ''3'', ''--bogus'', ''1'']
       [(''x'', Term (VInt 1))] (length [''--x'', ''3'', ''--bogus'', ''1'']) None
     = (Suc (Suc 0), Inl StalledResolution)
   \<and> parse_args (parse_known_args literal_eval_sample) no_file 1000 reg_AB []
       [(''x'', TVal (VInt 1))] (Some [''--x'', ''3'', ''--bogus'', ''1'']) = Inl StalledResolution
   \<and> ''--bogus'' \<in> set [''--x'', ''3'', ''--bogus'', ''1'']
   \<and> (\<exists>n. parse_loop (parse_known_args literal_eval_sample) 1000 reg_AB
             [''--x'', ''3'', ''--bogus'', ''1''] [(''x'', Term (VInt 1))]
             (length [''--x'', ''3'', ''--bogus'', ''1'']) None = (Suc n, Inl StalledResolution))"
proof -
  let ?pk = "parse_known_args literal_eval_sample"
  let ?args = "[''--x'', ''3'', ''--bogus'', ''1'']"
  let ?cfg0 = "[(''x'', Term (VInt 1))]"
  note sd = stall_detection [of ?pk 1000 reg_AB ?args ?cfg0 "''--bogus''" literal_eval_sample]
  have c: "continuing (Some [''--bogus'', ''1''])" by (simp add: continuing_def)
  have g: "(2::nat) \<le> length [''--bogus'', ''1'']" by simp
  from sd bogus_run(1,10) c g
  have 1: "parse_loop ?pk 1000 reg_AB ?args ?cfg0 (length ?args) None
        = (Suc (Suc 0), Inl StalledResolution)
      \<and> (\<forall>load argv tcfg.
              (if contains (to_dict_format tcfg) ''cfg_file''
               then apply_cfg_file ?pk load (to_dict_format tcfg) ?args
               else Inr (to_dict_format tcfg)) = Inr ?cfg0
              \<longrightarrow> parse_args ?pk load 1000 reg_AB argv tcfg (Some ?args) = Inl StalledResolution)"
    by blast
  with bogus_run(12)
  have 2: "parse_args ?pk no_file 1000 reg_AB [] [(''x'', TVal (VInt 1))] (Some ?args)
      = Inl StalledResolution"
    by blast
  have m: "''--bogus'' \<in> set ?args" by simp
  have run: "\<exists>arg_cfg full_cfg parsed_cfg unparsed'.
                 to_arg_format cfg = Inr arg_cfg \<and>
                 add_default_args 1000 reg_AB arg_cfg = Inr full_cfg \<and>
                 parse_optional (option_table (get_arg_parser (deep_to_flat full_cfg))) ''--bogus'' = Unknown \<and>
                 parse_iteration ?pk 1000 reg_AB ?args cfg = Inr (parsed_cfg, unparsed') \<and>
                 (length unparsed' < nb_unparsed \<longrightarrow> (\<exists>cfg'. flat_to_deep parsed_cfg = Inr cfg'))"
    if st: "loop_state ?pk 1000 reg_AB ?args ?cfg0 n = Some (cfg, nb_unparsed, unparsed)"
    for n cfg nb_unparsed unparsed
  proof (cases n)
    case 0
    with st have "cfg = ?cfg0" by simp
    with bogus_run(3,5,7,9,11) show ?thesis by blast
  next
    case (Suc k)
    show ?thesis
    proof (cases k)
      case 0
      with Suc st bogus_run(1) have "cfg = [(''x'', Term (VInt 3))]" by simp
      with bogus_run(4,6,8,10,11) show ?thesis by blast
    next
      case (Suc j)
      from loop_state_None [OF bogus_run(2), of j] st \<open>n = Suc k\<close> Suc show ?thesis by simp
    qed
  qed
  with sd m
  have 3: "\<exists>n. parse_loop ?pk 1000 reg_AB ?args ?cfg0 (length ?args) None = (Suc n, Inl StalledResolution)"
    by blast
  from 1 2 3 bogus_run(1,10) c g m show ?thesis by blast
qed

text \<open>
  C4, as amended. \<open>parse_args\<close> is a total function: its loop, \<open>parse_loop\<close>, is defined
  by recursion on the number of unrecognised tokens, which every iteration that
  continues makes smaller, so \<open>parse_args\<close> stops for every configuration and every token
  list, by returning or by raising. It executes at most one iteration more than there are
  tokens: the iteration after the one that recognised the last token is still executed.
\<close>

theorem iteration_bound:
  "fst (parse_args_run pk load depth reg argv cfg args)
     \<le> length (case args of None \<Rightarrow> argv | Some a \<Rightarrow> a) + 1
   \<and> snd (parse_args_run pk load depth reg argv cfg args)
       = parse_args pk load depth reg argv cfg args"
  using parse_args_run_count parse_args_run_result by blast

theorem iteration_bound_witness:
  "fst (parse_args_run (parse_known_args literal_eval_sample) no_file 1000 reg_AB []
      [(''backbone_class'', TVal VMissing)]
      (Some [''--backbone_class'', ''B'', ''--backbone.y'', ''5''])) = 3
   \<and> (3::nat) \<le> length [''--backbone_class'', ''B'', ''--backbone.y'', ''5''] + 1
   \<and> fst (parse_args_run (parse_known_args literal_eval_sample) no_file 1000 reg_AB []
      [(''cfg_file'', TVal (VStr ''absent.yaml'')), (''x'', TVal (VInt 1))] (Some [''--x=5''])) = 0"
proof -
  have "parse_args_run (parse_known_args literal_eval_sample) no_file 1000 reg_AB []
      [(''backbone_class'', TVal VMissing)]
      (Some [''--backbone_class'', ''B'', ''--backbone.y'', ''5''])
     = (3, Inr [(''backbone_class'', TVal (VStr ''B'')),
           (''backbone'', TInst ''B'' [(''y'', TVal (VInt 5))])])"
    by code_simp
  moreover have "parse_args_run (parse_known_args literal_eval_sample) no_file 1000 reg_AB []
      [(''cfg_file'', TVal (VStr ''absent.yaml'')), (''x'', TVal (VInt 1))] (Some [''--x=5''])
     = (0, Inl FileError)"
    by code_simp
  ultimately show ?thesis
    using iteration_bound [of "parse_known_args literal_eval_sample" no_file 1000 reg_AB "[]"
      "[(''backbone_class'', TVal VMissing)]"
      "Some [''--backbone_class'', ''B'', ''--backbone.y'', ''5'']"]
    by simp
qed

text \<open>
  The claim as stated, a cap at the number of tokens, fails: the single token
  \<open>--x=5\<close> is recognised in the first iteration and the loop runs a second one, after
  which \<open>parse_args\<close> returns; with no token at all the loop still runs one iteration.
\<close>

theorem iteration_cap_counterexample:
  "\<not> fst (parse_loop (parse_known_args literal_eval_sample) 1000 reg_AB [''--x=5'']
        [(''x'', Term (VInt 1))] (length [''--x=5'']) None) \<le> length [''--x=5'']
   \<and> \<not> fst (parse_loop (parse_known_args literal_eval_sample) 1000 reg_AB []
        [(''x'', Term (VInt 1))] (length ([] :: string list)) None) \<le> length ([] :: string list)
   \<and> parse_args_run (parse_known_args literal_eval_sample) no_file 1000 reg_AB []
        [(''x'', TVal (VInt 1))] (Some [''--x=5'']) = (2, Inr [(''x'', TVal (VInt 5))])
   \<and> \<not> (2::nat) \<le> length [''--x=5'']"
proof -
  have "parse_loop (parse_known_args literal_eval_sample) 1000 reg_AB [''--x=5'']
        [(''x'', Term (VInt 1))] 1 None = (2, Inr [(''x'', Term (VInt 5))])"
    by code_simp
  moreover have "parse_loop (parse_known_args literal_eval_sample) 1000 reg_AB []
        [(''x'', Term (VInt 1))] 0 None = (1, Inl StalledResolution)"
    by code_simp
  moreover have "parse_args_run (parse_known_args literal_eval_sample) no_file 1000 reg_AB []
        [(''x'', TVal (VInt 1))] (Some [''--x=5'']) = (2, Inr [(''x'', TVal (VInt 5))])"
    by code_simp
  ultimately show ?thesis by simp
qed

text \<open>
  C7, as amended. Whatever the literal evaluator: \<open>arg_as_tuple\<close> returns a value
  exactly when the evaluator returns a tuple, and it is that tuple; when the evaluator
  returns a value that is not a tuple, it raises \<open>InvalidArgument\<close>; when the evaluator
  raises, on a malformed literal, that exception propagates unchanged. At the tokens of
  the examples: \<open>(1, 2)\<close> gives the tuple of 1 and 2, and the list literal \<open>[1, 2]\<close> is
  an \<open>InvalidArgument\<close>.
\<close>

theorem arg_as_tuple_coercion:
  "(arg_as_tuple le s = Inr v \<longleftrightarrow> (\<exists>xs. v = VTuple xs \<and> le s = Inr v))
   \<and> (le s = Inr v \<and> (\<forall>xs. v \<noteq> VTuple xs) \<longrightarrow> arg_as_tuple le s = Inl InvalidArgument)
   \<and> (le s = Inl e \<longrightarrow> arg_as_tuple le s = Inl e)
   \<and> arg_as_tuple literal_eval_sample ''(1, 2)'' = Inr (VTuple [VInt 1, VInt 2])
   \<and> arg_as_tuple literal_eval_sample ''[1, 2]'' = Inl InvalidArgument"
  by (auto simp: arg_as_tuple_def literal_eval_sample_def split: sum.splits val.splits)

theorem arg_as_tuple_coercion_witness:
  "literal_eval_sample ''[1, 2]'' = Inr (VList [VInt 1, VInt 2])
   \<and> (\<forall>xs. VList [VInt 1, VInt 2] \<noteq> VTuple xs)
   \<and> arg_as_tuple literal_eval_sample ''[1, 2]'' = Inl InvalidArgument
   \<and> literal_eval_sample ''(1, 2'' = Inl SyntaxError
   \<and> arg_as_tuple literal_eval_sample ''(1, 2'' = Inl SyntaxError"
proof -
  have a: "literal_eval_sample ''[1, 2]'' = Inr (VList [VInt 1, VInt 2])"
    and b: "literal_eval_sample ''(1, 2'' = Inl SyntaxError"
    by (simp_all add: literal_eval_sample_def)
  have c: "\<forall>xs. VList [VInt 1, VInt 2] \<noteq> VTuple xs" by simp
  from arg_as_tuple_coercion [of literal_eval_sample "''[1, 2]''" "VList [VInt 1, VInt 2]"] a c
  have d: "arg_as_tuple literal_eval_sample ''[1, 2]'' = Inl InvalidArgument" by blast
  from arg_as_tuple_coercion [of literal_eval_sample "''(1, 2''" _ SyntaxError] b
  have "arg_as_tuple literal_eval_sample ''(1, 2'' = Inl SyntaxError" by blast
  with a b c d show ?thesis by blast
qed

text \<open>
  The claim as stated fails for a malformed literal: the evaluation of the token
  \<open>(1, 2\<close> yields no tuple, and \<open>arg_as_tuple\<close> does not raise \<open>InvalidArgument\<close> but
  lets the \<open>SyntaxError\<close> of the evaluator through.
\<close>

theorem arg_as_tuple_malformed_counterexample:
  "literal_eval_sample ''(1, 2'' = Inl SyntaxError
   \<and> arg_as_tuple literal_eval_sample ''(1, 2'' = Inl SyntaxError
   \<and> arg_as_tuple literal_eval_sample ''(1, 2'' \<noteq> Inl InvalidArgument"
  by (simp add: arg_as_tuple_def literal_eval_sample_def)

text \<open>
  C8. The check for unresolved arguments. In any iteration of the loop whose stages up
  to the parse succeed: if a key of the surface (the flattened configuration handed to
  \<open>get_arg_parser\<close>) is absent from the parsed result, the loop raises
  \<open>UnresolvedArgument\<close> for such a key, and so does \<open>parse_args\<close> when this is its
  first iteration; if every key of the surface received a value, the iteration raises
  no such error and passes the parsed result on to the progress check.
\<close>

theorem unresolved_argument_check:
  assumes "to_arg_format cfg = Inr arg_cfg"
    and "add_default_args depth reg arg_cfg = Inr full_cfg"
    and "pk (get_arg_parser (deep_to_flat full_cfg)) args = Inr (parsed_cfg, unparsed')"
  shows "if list_all (contains parsed_cfg) (map fst (deep_to_flat full_cfg))
         then parse_iteration pk depth reg args cfg = Inr (parsed_cfg, unparsed')
         else \<exists>key. key \<in> set (map fst (deep_to_flat full_cfg)) \<and> \<not> contains parsed_cfg key \<and>
                parse_loop pk depth reg args cfg nb_unparsed unparsed
                  = (1, Inl (UnresolvedArgument key)) \<and>
                (\<forall>tcfg. to_dict_format tcfg = cfg \<and> \<not> contains cfg ''cfg_file''
                   \<longrightarrow> parse_args pk load depth reg argv tcfg (Some args)
                         = Inl (UnresolvedArgument key))"
proof (cases "list_all (contains parsed_cfg) (map fst (deep_to_flat full_cfg))")
  case True
  then have "find (\<lambda>key. \<not> contains parsed_cfg key) (map fst (deep_to_flat full_cfg)) = None"
    by (simp add: find_None_iff list_all_iff)
  with assms True show ?thesis by (simp add: parse_iteration_def)
next
  case False
  then obtain key where f: "find (\<lambda>key. \<not> contains parsed_cfg key) (map fst (deep_to_flat full_cfg)) = Some key"
    by (cases "find (\<lambda>key. \<not> contains parsed_cfg key) (map fst (deep_to_flat full_cfg))")
      (auto simp: find_None_iff list_all_iff)
  then have k: "key \<in> set (map fst (deep_to_flat full_cfg))" "\<not> contains parsed_cfg key"
    by (auto simp: find_Some_iff)
  from assms f have it: "parse_iteration pk depth reg args cfg = Inl (UnresolvedArgument key)"
    by (simp add: parse_iteration_def)
  have loop: "parse_loop pk depth reg args cfg nb unp = (1, Inl (UnresolvedArgument key))" for nb unp
    using parse_loop_iteration_error [OF it] .
  have "parse_args pk load depth reg argv tcfg (Some args) = Inl (UnresolvedArgument key)"
    if "to_dict_format tcfg = cfg \<and> \<not> contains cfg ''cfg_file''" for tcfg
    using that loop [of "length args" None] by (simp add: parse_args_def)
  with False k loop show ?thesis by auto
qed

lemma unresolved_stages:
  "to_arg_format [(''backbone_class'', Term VMissing)] = Inr [(''backbone_class'', Term (TStr, VMissing))]"
  "add_default_args 1000 reg_AB [(''backbone_class'', Term (TStr, VMissing))]
     = Inr [(''backbone_class'', Term (TStr, VMissing))]"
  "deep_to_flat [(''backbone_class'', Term (TStr, VMissing))] = [(''backbone_class'', (TStr, VMissing))]"
  "parse_known_args literal_eval_sample (get_arg_parser [(''backbone_class'', (TStr, VMissing))]) []
     = Inr ([], [])"
  "parse_known_args literal_eval_sample (get_arg_parser [(''backbone_class'', (TStr, VMissing))])
      [''--backbone_class'', ''B''] = Inr ([(''backbone_class'', VStr ''B'')], [])"
  by code_simp+

theorem unresolved_argument_check_witness:
  "parse_loop (parse_known_args literal_eval_sample) 1000 reg_AB []
      [(''backbone_class'', Term VMissing)] 0 None = (1, Inl (UnresolvedArgument ''backbone_class''))
   \<and> parse_args (parse_known_args literal_eval_sample) no_file 1000 reg_AB []
      [(''backbone_class'', TVal VMissing)] (Some []) = Inl (UnresolvedArgument ''backbone_class'')
   \<and> parse_iteration (parse_known_args literal_eval_sample) 1000 reg_AB [''--backbone_class'', ''B'']
      [(''backbone_class'', Term VMissing)] = Inr ([(''backbone_class'', VStr ''B'')], [])"
proof -
  let ?pk = "parse_known_args literal_eval_sample"
  from unresolved_argument_check [of "[(''backbone_class'', Term VMissing)]"
      "[(''backbone_class'', Term (TStr, VMissing))]" 1000 reg_AB
      "[(''backbone_class'', Term (TStr, VMissing))]" ?pk "[]" "[]" "[]" 0 None no_file "[]"]
    unresolved_stages
  have 1: "parse_loop ?pk 1000 reg_AB [] [(''backbone_class'', Term VMissing)] 0 None
      = (1, Inl (UnresolvedArgument ''backbone_class''))
    \<and> (\<forall>tcfg. to_dict_format tcfg = [(''backbone_class'', Term VMissing)]
           \<and> \<not> contains [(''backbone_class'', Term VMissing)] ''cfg_file''
          \<longrightarrow> parse_args ?pk no_file 1000 reg_AB [] tcfg (Some [])
                = Inl (UnresolvedArgument ''backbone_class''))"
    by (auto simp: contains_def)
  have "to_dict_format [(''backbone_class'', TVal VMissing)] = [(''backbone_class'', Term VMissing)]"
    "\<not> contains [(''backbone_class'', Term VMissing)] ''cfg_file''"
    by code_simp+
  with 1 have 3: "parse_args ?pk no_file 1000 reg_AB [] [(''backbone_class'', TVal VMissing)] (Some [])
      = Inl (UnresolvedArgument ''backbone_class'')"
    by blast
  from unresolved_argument_check [of "[(''backbone_class'', Term VMissing)]"
      "[(''backbone_class'', Term (TStr, VMissing))]" 1000 reg_AB
      "[(''backbone_class'', Term (TStr, VMissing))]" ?pk "[''--backbone_class'', ''B'']"
      "[(''backbone_class'', VStr ''B'')]" "[]" 0 None no_file "[]"]
    unresolved_stages
  have 2: "parse_iteration ?pk 1000 reg_AB [''--backbone_class'', ''B'']
      [(''backbone_class'', Term VMissing)] = Inr ([(''backbone_class'', VStr ''B'')], [])"
    by (simp add: contains_def)
  from 1 2 3 show ?thesis by blast
qed

text \<open>
  A field of a dataclass instance that holds the sentinel \<open>MISSING\<close> is not an unresolved
  argument: \<open>to_dict_format\<close> converts the instance with \<open>dataclasses.asdict\<close>, which
  stores a copy of the sentinel; the copy is the default of the option \<open>--m.f\<close>, the check
  passes and \<open>parse_args\<close> returns the instance with that copy. The sentinel itself, in a
  dict of the configuration, leaves the option without default and is reported.
\<close>

lemma missing_field_of_instance:
  "to_dict_format [(''m'', TInst ''M'' [(''f'', TVal VMissing)]), (''m_class'', TVal (VStr ''M''))]
     = [(''m'', Dict [(''f'', Term VMissingCopy)]), (''m_class'', Term (VStr ''M''))]"
  "parse_args (parse_known_args literal_eval_sample) no_file 1000 reg_M []
      [(''m'', TInst ''M'' [(''f'', TVal VMissing)]), (''m_class'', TVal (VStr ''M''))]
      (Some [''--m_class'', ''M''])
     = Inr [(''m'', TInst ''M'' [(''f'', TVal VMissingCopy)]), (''m_class'', TVal (VStr ''M''))]"
  "parse_args (parse_known_args literal_eval_sample) no_file 1000 reg_M []
      [(''m'', TDict [(''f'', TVal VMissing)]), (''m_class'', TVal (VStr ''M''))]
      (Some [''--m_class'', ''M''])
     = Inl (UnresolvedArgument ''m.f'')"
  by code_simp+

text \<open>
  C10. With an explicitly empty token list \<open>parse_args\<close> never returns a configuration,
  whatever the configuration, the parser, the files and the registry: the first
  iteration is set to continue, and the number of unrecognised tokens it leaves cannot
  be smaller than the initial count zero. When the file merger and the stages of the
  first iteration raise nothing, the exception is \<open>StalledResolution\<close>.
\<close>

theorem empty_token_list_never_succeeds:
  "(\<forall>r. parse_args pk load depth reg argv cfg (Some []) \<noteq> Inr r)
   \<and> (\<forall>cfg1 parsed_cfg unparsed'.
        (if contains (to_dict_format cfg) ''cfg_file''
         then apply_cfg_file pk load (to_dict_format cfg) []
         else Inr (to_dict_format cfg)) = Inr cfg1 \<and>
        parse_iteration pk depth reg [] cfg1 = Inr (parsed_cfg, unparsed')
        \<longrightarrow> parse_args pk load depth reg argv cfg (Some []) = Inl StalledResolution)"
proof -
  have loop: "\<exists>e. snd (parse_loop pk depth reg [] c 0 None) = Inl e" for c
    by (cases rule: parse_loop_cases
        [where pk = pk and depth = depth and reg = reg and args = "[]" and cfg = c
           and unparsed = None and nb_unparsed = 0]) (simp_all add: continuing_def)
  have 1: "parse_args pk load depth reg argv cfg (Some []) \<noteq> Inr r" for r
  proof (cases "if contains (to_dict_format cfg) ''cfg_file''
         then apply_cfg_file pk load (to_dict_format cfg) []
         else Inr (to_dict_format cfg)")
    case (Inl e)
    then show ?thesis by (simp add: parse_args_def)
  next
    case (Inr c)
    with loop [of c] show ?thesis by (auto simp: parse_args_def)
  qed
  have 2: "parse_args pk load depth reg argv cfg (Some []) = Inl StalledResolution"
    if "(if contains (to_dict_format cfg) ''cfg_file''
         then apply_cfg_file pk load (to_dict_format cfg) []
         else Inr (to_dict_format cfg)) = Inr cfg1 \<and>
        parse_iteration pk depth reg [] cfg1 = Inr (parsed_cfg, unparsed')"
    for cfg1 parsed_cfg unparsed'
  proof -
    have "parse_loop pk depth reg [] cfg1 0 None = (1, Inl StalledResolution)"
      using parse_loop_stalled [of pk depth reg "[]" cfg1 parsed_cfg unparsed' None 0] that
      by (simp add: continuing_def)
    with that show ?thesis by (simp add: parse_args_def)
  qed
  from 1 2 show ?thesis by blast
qed

theorem empty_token_list_never_succeeds_witness:
  "parse_iteration (parse_known_args literal_eval_sample) 1000 reg_AB [] [(''x'', Term (VInt 1))]
     = Inr ([(''x'', VInt 1)], [])
   \<and> parse_args (parse_known_args literal_eval_sample) no_file 1000 reg_AB []
       [(''x'', TVal (VInt 1))] (Some []) = Inl StalledResolution"
proof -
  let ?pk = "parse_known_args literal_eval_sample"
  have a: "(if contains (to_dict_format [(''x'', TVal (VInt 1))]) ''cfg_file''
         then apply_cfg_file ?pk no_file (to_dict_format [(''x'', TVal (VInt 1))]) []
         else Inr (to_dict_format [(''x'', TVal (VInt 1))])) = Inr [(''x'', Term (VInt 1))]"
    by code_simp
  have b: "parse_iteration ?pk 1000 reg_AB [] [(''x'', Term (VInt 1))] = Inr ([(''x'', VInt 1)], [])"
    by code_simp
  from empty_token_list_never_succeeds [of ?pk no_file 1000 reg_AB "[]" "[(''x'', TVal (VInt 1))]"] a b
  have "parse_args ?pk no_file 1000 reg_AB [] [(''x'', TVal (VInt 1))] (Some []) = Inl StalledResolution"
    by blast
  with b show ?thesis by blast
qed

text \<open>
  C5. Override precedence in schema expansion. The configuration, in argument format,
  has a selector \<open>stem_class\<close> that names a registered class with a field \<open>f\<close> of
  default \<open>D\<close>, and under \<open>stem\<close> a dict in which \<open>f\<close> already has the value \<open>V\<close>,
  distinct from \<open>D\<close> (both paired with their types). Whenever \<open>add_default_args\<close>
  returns, the dict under \<open>stem\<close> of its result has \<open>f = V\<close>, not \<open>D\<close>. The lists
  are dicts: their keys are pairwise distinct.
\<close>

theorem override_precedence:
  assumes "add_default_args depth reg cfg = Inr res"
    and "distinct (map fst cfg)"
    and "map_of cfg (stem @ ''_class'') = Some (Term (tp, VStr name))"
    and "reg name = Some flds" and "(f, ftp, D) \<in> set flds"
    and "map_of cfg stem = Some (Dict d)" and "distinct (map fst d)"
    and "map_of d f = Some (Term V)" and "V \<noteq> (ftp, D)"
  shows "\<exists>d'. map_of res stem = Some (Dict d') \<and> map_of d' f = Some (Term V)
           \<and> map_of d' f \<noteq> Some (Term (ftp, D))"
proof (cases depth)
  case 0
  with assms(1) show ?thesis by (simp add: add_default_args.simps)
next
  case (Suc n)
  from assms(6) have "(stem, Dict d) \<in> set cfg" by (rule map_of_SomeD)
  with assms(1) Suc
  have "\<exists>d'. map_of res stem = Some (Dict d') \<and> map_of d' f = Some (Term V)"
    using expand_stem_override [of n reg cfg cfg "[]" res stem d f V, OF _ _ assms(2,6,7,8)]
    by (simp add: add_default_args_Suc)
  with assms(9) show ?thesis by auto
qed


lemma override_example:
  "add_default_args 1000 reg_AB
     [(''backbone'', Dict [(''y'', Term (TInt, VInt 5))]), (''backbone_class'', Term (TStr, VStr ''B''))]
   = Inr [(''backbone'', Dict [(''y'', Term (TInt, VInt 5))]), (''backbone_class'', Term (TStr, VStr ''B''))]"
  by code_simp

theorem override_precedence_witness:
  "add_default_args 1000 reg_AB
     [(''backbone'', Dict [(''y'', Term (TInt, VInt 5))]), (''backbone_class'', Term (TStr, VStr ''B''))]
   = Inr [(''backbone'', Dict [(''y'', Term (TInt, VInt 5))]), (''backbone_class'', Term (TStr, VStr ''B''))]
   \<and> reg_AB ''B'' = Some [(''y'', TInt, VInt 2)]
   \<and> (\<exists>d'. map_of [(''backbone'', Dict [(''y'', Term (TInt, VInt 5))]),
                     (''backbone_class'', Term (TStr, VStr ''B''))] ''backbone'' = Some (Dict d')
          \<and> map_of d' ''y'' = Some (Term (TInt, VInt 5))
          \<and> map_of d' ''y'' \<noteq> Some (Term (TInt, VInt 2)))"
proof -
  let ?cfg = "[(''backbone'', Dict [(''y'', Term (TInt, VInt 5))]),
               (''backbone_class'', Term (TStr, VStr ''B''))]"
  have r: "reg_AB ''B'' = Some [(''y'', TInt, VInt 2)]" by (simp add: reg_AB_def)
  from override_precedence [OF override_example _ _ r, of "''backbone''" TStr "''y''" TInt "VInt 2"
      "[(''y'', Term (TInt, VInt 5))]" "(TInt, VInt 5)"]
  have "\<exists>d'. map_of ?cfg ''backbone'' = Some (Dict d')
          \<and> map_of d' ''y'' = Some (Term (TInt, VInt 5))
          \<and> map_of d' ''y'' \<noteq> Some (Term (TInt, VInt 2))"
    by simp
  with override_example r show ?thesis by blast
qed

text \<open>
  Where the round trip holds: for a configuration with distinct keys, without dots in
  its keys and without an empty nested dict, \<open>flat_to_deep\<close> gives back what
  \<open>deep_to_flat\<close> flattened, entries in the same order.
\<close>

lemma flat_round_trip:
  assumes "wf_dict cfg" and "dotless cfg" and "filled cfg"
  shows "flat_to_deep (deep_to_flat cfg) = Inr cfg"
  using assms
proof (induction cfg rule: deep_to_flat.induct)
  case (1 cfg)
  have IH: "flat_to_deep (deep_to_flat d) = Inr d" if m: "(k, Dict d) \<in> set cfg" for k d
    using "1.IH" [OF m refl refl wf_dictD(2) [OF "1.prems"(1) m] dotlessD(2) [OF "1.prems"(2) m]
        filledD(2) [OF "1.prems"(3) m]] .
  have sub: "deep_to_flat d \<noteq> [] \<and> distinct (map fst (deep_to_flat d))"
    if m: "(k, Dict d) \<in> set cfg" for k d
    using deep_to_flat_nonempty [OF wf_dictD(2) [OF "1.prems"(1) m] dotlessD(2) [OF "1.prems"(2) m]
        filledD(2) [OF "1.prems"(3) m] filledD(1) [OF "1.prems"(3) m]]
      deep_to_flat_concat [OF wf_dictD(2) [OF "1.prems"(1) m] dotlessD(2) [OF "1.prems"(2) m]]
    by blast
  have nd: "CHR ''.'' \<notin> set k" if "(k, v) \<in> set cfg" for k v
    using dotlessD(1) [OF "1.prems"(2) that] .
  have flat: "deep_to_flat cfg = concat (map flat_entry cfg)"
    using deep_to_flat_concat [OF "1.prems"(1,2)] by simp
  have level: "resolve_level (deep_to_flat cfg) = Inr (map level_entry cfg)"
    using resolve_concat [of cfg "[]", OF wf_dictD(1) [OF "1.prems"(1)] nd sub]
    by (simp add: resolve_level_def flat)
  show ?case
    using nest_levels [of cfg "[]", OF IH]
    by (simp add: flat_to_deep_unfold [of "deep_to_flat cfg"] level)
qed

lemma flat_round_trip_example:
  "wf_dict [(''a'', Dict [(''b'', Term (1::int)), (''c'', Term 2)]), (''d'', Term 3)]
   \<and> dotless [(''a'', Dict [(''b'', Term (1::int)), (''c'', Term 2)]), (''d'', Term 3)]
   \<and> filled [(''a'', Dict [(''b'', Term (1::int)), (''c'', Term 2)]), (''d'', Term 3)]
   \<and> deep_to_flat [(''a'', Dict [(''b'', Term (1::int)), (''c'', Term 2)]), (''d'', Term 3)]
       = [(''a.b'', 1), (''a.c'', 2), (''d'', 3)]
   \<and> flat_to_deep [(''a.b'', 1::int), (''a.c'', 2), (''d'', 3)]
       = Inr [(''a'', Dict [(''b'', Term 1), (''c'', Term 2)]), (''d'', Term 3)]"
proof -
  let ?cfg = "[(''a'', Dict [(''b'', Term (1::int)), (''c'', Term 2)]), (''d'', Term 3)]"
  have h: "wf_dict ?cfg" "dotless ?cfg" "filled ?cfg"
    by code_simp+
  have f: "deep_to_flat ?cfg = [(''a.b'', 1), (''a.c'', 2), (''d'', 3)]"
    by code_simp
  from flat_round_trip [OF h] f h show ?thesis by simp
qed

text \<open>
  C2. The round trip of the structural converters fails on a nested configuration whose
  keys have no dot: \<open>deep_to_flat\<close> has no entry for the empty nested dict under
  \<open>a\<close>, so the flat form of \<open>{"a": {}}\<close> is empty and \<open>flat_to_deep\<close> returns the
  empty configuration, not \<open>{"a": {}}\<close>.
\<close>

theorem round_trip_loses_empty_dict:
  "wf_dict [(''a'', Dict ([] :: val dict))] \<and> dotless [(''a'', Dict ([] :: val dict))]
   \<and> deep_to_flat [(''a'', Dict ([] :: val dict))] = []
   \<and> flat_to_deep (deep_to_flat [(''a'', Dict ([] :: val dict))]) = Inr []
   \<and> flat_to_deep (deep_to_flat [(''a'', Dict ([] :: val dict))]) \<noteq> Inr [(''a'', Dict [])]"
  by (simp add: wf_dict.simps dotless.simps eval_defs)

text \<open>
  C6, as amended. The file-override merger. With the reserved key \<open>cfg_file\<close> in the
  configuration and \<open>cfg_file\<close> the path that the one-flag parser resolves (the token
  after \<open>--cfg_file\<close>, else the value in the configuration): if it is the missing
  sentinel, \<open>apply_cfg_file\<close> returns the configuration unchanged; otherwise, when the
  file loads as a mapping, it returns what \<open>flat_to_deep\<close> makes of the flat
  configuration updated with the flat entries of the file. When no key of these merged
  entries continues another one after a dot, that is a nested configuration (keys
  distinct and without dots at every level), and in its flat form a key that the file
  sets to \<open>F\<close> has the value \<open>F\<close> whatever its default was, and every other key has
  the value of the configuration.
\<close>

theorem file_override_merge:
  assumes "map_of cfg ''cfg_file'' = Some dflt"
    and "pk [\<lparr>dest = ''cfg_file'',
              default_val = (case dflt of Term v \<Rightarrow> Some v | Dict d \<Rightarrow> None),
              conv = NoType\<rparr>] args = Inr (namespace, unknown)"
    and "cfg_file = (case map_of namespace ''cfg_file'' of Some v \<Rightarrow> Term v | None \<Rightarrow> dflt)"
  shows "(cfg_file = Term VMissing \<longrightarrow> apply_cfg_file pk load cfg args = Inr cfg)
    \<and> (\<forall>path loaded_cfg.
          cfg_file = Term path \<and> path \<noteq> VMissing \<and> load path = Inr (Dict loaded_cfg) \<longrightarrow>
          apply_cfg_file pk load cfg args
            = flat_to_deep (dict_update (deep_to_flat cfg) (deep_to_flat loaded_cfg))
          \<and> (prefix_free (dict_update (deep_to_flat cfg) (deep_to_flat loaded_cfg)) \<longrightarrow>
               (\<exists>res. apply_cfg_file pk load cfg args = Inr res
                  \<and> wf_dict res \<and> dotless res
                  \<and> (\<forall>k F. map_of (deep_to_flat loaded_cfg) k = Some F \<longrightarrow>
                        map_of (deep_to_flat res) k = Some F)
                  \<and> (\<forall>k. map_of (deep_to_flat loaded_cfg) k = None \<longrightarrow>
                        map_of (deep_to_flat res) k = map_of (deep_to_flat cfg) k))))"
proof (intro conjI allI impI)
  assume "cfg_file = Term VMissing"
  with assms show "apply_cfg_file pk load cfg args = Inr cfg"
    by (simp add: apply_cfg_file_def)
next
  fix path loaded_cfg
  assume a: "cfg_file = Term path \<and> path \<noteq> VMissing \<and> load path = Inr (Dict loaded_cfg)"
  let ?merged = "dict_update (deep_to_flat cfg) (deep_to_flat loaded_cfg)"
  from a assms(3)
  have "(case map_of namespace ''cfg_file'' of Some v \<Rightarrow> Term v | None \<Rightarrow> dflt) = Term path"
    by simp
  with a assms(1,2) show run: "apply_cfg_file pk load cfg args = flat_to_deep ?merged"
    by (simp add: apply_cfg_file_def)
  assume pf: "prefix_free ?merged"
  have "distinct (map fst ?merged)"
    using deep_to_flat_distinct by (rule dict_update_distinct)
  from nest_back [OF this pf] obtain res where
    res: "flat_to_deep ?merged = Inr res" and nested: "wf_dict res" "dotless res"
    and look: "map_of (deep_to_flat res) = map_of ?merged"
    by blast
  have "map_of (deep_to_flat res) k = Some F" if "map_of (deep_to_flat loaded_cfg) k = Some F" for k F
    using dict_update_lookup [OF deep_to_flat_distinct that, of "deep_to_flat cfg"]
    by (simp only: look)
  moreover have "map_of (deep_to_flat res) k = map_of (deep_to_flat cfg) k"
    if "map_of (deep_to_flat loaded_cfg) k = None" for k
    using dict_update_other [OF that, of "deep_to_flat cfg"] by (simp only: look)
  ultimately show "\<exists>res. apply_cfg_file pk load cfg args = Inr res
                  \<and> wf_dict res \<and> dotless res
                  \<and> (\<forall>k F. map_of (deep_to_flat loaded_cfg) k = Some F \<longrightarrow>
                        map_of (deep_to_flat res) k = Some F)
                  \<and> (\<forall>k. map_of (deep_to_flat loaded_cfg) k = None \<longrightarrow>
                        map_of (deep_to_flat res) k = map_of (deep_to_flat cfg) k)"
    using run res nested by auto
qed

lemma file_override_example:
  "parse_known_args literal_eval_sample
      [\<lparr>dest = ''cfg_file'', default_val = Some VMissing, conv = NoType\<rparr>] [''--cfg_file'', ''f.yaml'']
     = Inr ([(''cfg_file'', VStr ''f.yaml'')], [])"
  "parse_known_args literal_eval_sample
      [\<lparr>dest = ''cfg_file'', default_val = Some VMissing, conv = NoType\<rparr>] [''--k'', ''3'']
     = Inr ([(''cfg_file'', VMissing)], [''--k'', ''3''])"
  "prefix_free (dict_update
      (deep_to_flat [(''cfg_file'', Term VMissing), (''k'', Term (VInt 1)),
                     (''m'', Dict [(''a'', Term (VInt 1)), (''b'', Term (VInt 2))])])
      (deep_to_flat [(''k'', Term (VInt 7)), (''m'', Dict [(''b'', Term (VInt 5))])]))"
  "flat_to_deep (dict_update
      (deep_to_flat [(''cfg_file'', Term VMissing), (''k'', Term (VInt 1)),
                     (''m'', Dict [(''a'', Term (VInt 1)), (''b'', Term (VInt 2))])])
      (deep_to_flat [(''k'', Term (VInt 7)), (''m'', Dict [(''b'', Term (VInt 5))])]))
     = Inr [(''cfg_file'', Term VMissing), (''k'', Term (VInt 7)),
            (''m'', Dict [(''a'', Term (VInt 1)), (''b'', Term (VInt 5))])]"
  "map_of (deep_to_flat [(''k'', Term (VInt 7)), (''m'', Dict [(''b'', Term (VInt 5))])]) ''m.b''
     = Some (VInt 5)"
  "map_of (deep_to_flat [(''k'', Term (VInt 7)), (''m'', Dict [(''b'', Term (VInt 5))])]) ''k''
     = Some (VInt 7)"
  "map_of (deep_to_flat [(''k'', Term (VInt 7)), (''m'', Dict [(''b'', Term (VInt 5))])]) ''m.a''
     = None"
  "map_of (deep_to_flat [(''cfg_file'', Term VMissing), (''k'', Term (VInt 1)),
                     (''m'', Dict [(''a'', Term (VInt 1)), (''b'', Term (VInt 2))])]) ''m.a''
     = Some (VInt 1)"
  "parse_args (parse_known_args literal_eval_sample) (one_file [(''k'', Term (VInt 7))]) 1000 reg_AB []
      [(''cfg_file'', TVal VMissing), (''k'', TVal (VInt 1))] (Some [''--cfg_file'', ''f.yaml''])
     = Inr [(''k'', TVal (VInt 7)), (''cfg_file'', TVal (VStr ''f.yaml''))]"
  by code_simp+

theorem file_override_merge_witness:
  "apply_cfg_file (parse_known_args literal_eval_sample) two_files
      [(''cfg_file'', Term VMissing), (''k'', Term (VInt 1)),
       (''m'', Dict [(''a'', Term (VInt 1)), (''b'', Term (VInt 2))])] [''--k'', ''3'']
     = Inr [(''cfg_file'', Term VMissing), (''k'', Term (VInt 1)),
            (''m'', Dict [(''a'', Term (VInt 1)), (''b'', Term (VInt 2))])]
   \<and> apply_cfg_file (parse_known_args literal_eval_sample) two_files
      [(''cfg_file'', Term VMissing), (''k'', Term (VInt 1)),
       (''m'', Dict [(''a'', Term (VInt 1)), (''b'', Term (VInt 2))])] [''--cfg_file'', ''f.yaml'']
     = Inr [(''cfg_file'', Term VMissing), (''k'', Term (VInt 7)),
            (''m'', Dict [(''a'', Term (VInt 1)), (''b'', Term (VInt 5))])]
   \<and> (\<exists>res. apply_cfg_file (parse_known_args literal_eval_sample) two_files
          [(''cfg_file'', Term VMissing), (''k'', Term (VInt 1)),
           (''m'', Dict [(''a'', Term (VInt 1)), (''b'', Term (VInt 2))])] [''--cfg_file'', ''f.yaml'']
        = Inr res
        \<and> wf_dict res \<and> dotless res
        \<and> map_of (deep_to_flat res) ''k'' = Some (VInt 7)
        \<and> map_of (deep_to_flat res) ''m.b'' = Some (VInt 5)
        \<and> map_of (deep_to_flat res) ''m.a'' = Some (VInt 1))
   \<and> parse_args (parse_known_args literal_eval_sample) (one_file [(''k'', Term (VInt 7))]) 1000 reg_AB []
      [(''cfg_file'', TVal VMissing), (''k'', TVal (VInt 1))] (Some [''--cfg_file'', ''f.yaml''])
     = Inr [(''k'', TVal (VInt 7)), (''cfg_file'', TVal (VStr ''f.yaml''))]"
proof -
  let ?pk = "parse_known_args literal_eval_sample"
  let ?cfg = "[(''cfg_file'', Term VMissing), (''k'', Term (VInt 1)),
       (''m'', Dict [(''a'', Term (VInt 1)), (''b'', Term (VInt 2))])]"
  let ?file = "[(''k'', Term (VInt 7)), (''m'', Dict [(''b'', Term (VInt 5))])]"
  have c: "map_of ?cfg ''cfg_file'' = Some (Term VMissing)" by simp
  have l: "two_files (VStr ''f.yaml'') = Inr (Dict ?file)"
    by (simp add: two_files_def)
  have e1: "?pk [\<lparr>dest = ''cfg_file'',
              default_val = (case Term VMissing of Term v \<Rightarrow> Some v | Dict d \<Rightarrow> None),
              conv = NoType\<rparr>] [''--k'', ''3''] = Inr ([(''cfg_file'', VMissing)], [''--k'', ''3''])"
    using file_override_example(2) by simp
  have e2: "?pk [\<lparr>dest = ''cfg_file'',
              default_val = (case Term VMissing of Term v \<Rightarrow> Some v | Dict d \<Rightarrow> None),
              conv = NoType\<rparr>] [''--cfg_file'', ''f.yaml''] = Inr ([(''cfg_file'', VStr ''f.yaml'')], [])"
    using file_override_example(1) by simp
  have r1: "Term VMissing = (case map_of [(''cfg_file'', VMissing)] ''cfg_file'' of
      Some v \<Rightarrow> Term v | None \<Rightarrow> Term VMissing)"
    by simp
  have r2: "Term (VStr ''f.yaml'') = (case map_of [(''cfg_file'', VStr ''f.yaml'')] ''cfg_file'' of
      Some v \<Rightarrow> Term v | None \<Rightarrow> Term VMissing)"
    by simp
  from file_override_merge [where cfg = ?cfg and dflt = "Term VMissing" and pk = ?pk
      and args = "[''--k'', ''3'']" and namespace = "[(''cfg_file'', VMissing)]"
      and unknown = "[''--k'', ''3'']" and cfg_file = "Term VMissing" and load = two_files,
      OF c e1 r1]
  have 1: "apply_cfg_file ?pk two_files ?cfg [''--k'', ''3''] = Inr ?cfg" by blast
  have n: "VStr ''f.yaml'' \<noteq> VMissing" by simp
  from file_override_merge [where cfg = ?cfg and dflt = "Term VMissing" and pk = ?pk
      and args = "[''--cfg_file'', ''f.yaml'']" and namespace = "[(''cfg_file'', VStr ''f.yaml'')]"
      and unknown = "[]" and cfg_file = "Term (VStr ''f.yaml'')" and load = two_files,
      OF c e2 r2]
  have m: "\<forall>path loaded_cfg.
          Term (VStr ''f.yaml'') = Term path \<and> path \<noteq> VMissing \<and> two_files path = Inr (Dict loaded_cfg) \<longrightarrow>
          apply_cfg_file ?pk two_files ?cfg [''--cfg_file'', ''f.yaml'']
            = flat_to_deep (dict_update (deep_to_flat ?cfg) (deep_to_flat loaded_cfg))
          \<and> (prefix_free (dict_update (deep_to_flat ?cfg) (deep_to_flat loaded_cfg)) \<longrightarrow>
               (\<exists>res. apply_cfg_file ?pk two_files ?cfg [''--cfg_file'', ''f.yaml''] = Inr res
                  \<and> wf_dict res \<and> dotless res
                  \<and> (\<forall>k F. map_of (deep_to_flat loaded_cfg) k = Some F \<longrightarrow>
                        map_of (deep_to_flat res) k = Some F)
                  \<and> (\<forall>k. map_of (deep_to_flat loaded_cfg) k = None \<longrightarrow>
                        map_of (deep_to_flat res) k = map_of (deep_to_flat ?cfg) k)))"
    by (rule conjunct2)
  from m l n have 2: "apply_cfg_file ?pk two_files ?cfg [''--cfg_file'', ''f.yaml'']
      = flat_to_deep (dict_update (deep_to_flat ?cfg) (deep_to_flat ?file))"
    by blast
  from m l n file_override_example(3) obtain res where
    r: "apply_cfg_file ?pk two_files ?cfg [''--cfg_file'', ''f.yaml''] = Inr res"
    and w: "wf_dict res" "dotless res"
    and f: "\<forall>k F. map_of (deep_to_flat ?file) k = Some F \<longrightarrow> map_of (deep_to_flat res) k = Some F"
    and o: "\<forall>k. map_of (deep_to_flat ?file) k = None \<longrightarrow>
              map_of (deep_to_flat res) k = map_of (deep_to_flat ?cfg) k"
    by blast
  from f file_override_example(5,6) have 3: "map_of (deep_to_flat res) ''k'' = Some (VInt 7)"
    "map_of (deep_to_flat res) ''m.b'' = Some (VInt 5)" by blast+
  from o file_override_example(7,8) have 4: "map_of (deep_to_flat res) ''m.a'' = Some (VInt 1)"
    by simp
  from 1 2 3 4 r w file_override_example(4,9) show ?thesis by simp
qed

text \<open>
  The claim as stated fails when the file nests entries under a key that holds a
  terminal in the configuration: the key \<open>k\<close> has the default 1 and the file sets it to
  7, no token overrides it, and \<open>apply_cfg_file\<close> returns no configuration at all but
  raises \<open>TypeError\<close>, because the entry \<open>a.b\<close> of the file cannot be stored under the
  terminal \<open>a\<close>.
\<close>

theorem file_override_conflict_counterexample:
  "map_of [(''cfg_file'', Term (VStr ''g.yaml'')), (''k'', Term (VInt 1)), (''a'', Term (VInt 1))] ''k''
     = Some (Term (VInt 1))
   \<and> two_files (VStr ''g.yaml'')
     = Inr (Dict [(''k'', Term (VInt 7)), (''a'', Dict [(''b'', Term (VInt 2))])])
   \<and> map_of (deep_to_flat [(''k'', Term (VInt 7)), (''a'', Dict [(''b'', Term (VInt 2))])]) ''k''
     = Some (VInt 7)
   \<and> apply_cfg_file (parse_known_args literal_eval_sample) two_files
       [(''cfg_file'', Term (VStr ''g.yaml'')), (''k'', Term (VInt 1)), (''a'', Term (VInt 1))] []
     = Inl TypeError
   \<and> (\<forall>res. apply_cfg_file (parse_known_args literal_eval_sample) two_files
       [(''cfg_file'', Term (VStr ''g.yaml'')), (''k'', Term (VInt 1)), (''a'', Term (VInt 1))] []
     \<noteq> Inr res)"
proof -
  have "apply_cfg_file (parse_known_args literal_eval_sample) two_files
       [(''cfg_file'', Term (VStr ''g.yaml'')), (''k'', Term (VInt 1)), (''a'', Term (VInt 1))] []
     = Inl TypeError"
    by code_simp
  moreover have "map_of (deep_to_flat [(''k'', Term (VInt 7)), (''a'', Dict [(''b'', Term (VInt 2))])]) ''k''
     = Some (VInt 7)"
    by code_simp
  ultimately show ?thesis by (simp add: two_files_def)
qed

end
